theory Spec2Isabelle
  imports Main "HOL-Library.Word" "HOL-Library.Multiset" "HOL-Library.Signed_Division"
begin

section \<open>The War card-game simulator (main.go)\<close>

text \<open>
  Cards are Go \<open>uint8\<close> values, modelled as 8-bit words. Indices and lengths are Go
  \<open>int\<close>s that the program only ever increments, compares and reduces by \<open>qlen\<close> when
  above it, so they are natural numbers here. Every run-time panic that the methods can
  reach is a value of \<open>error\<close>.
\<close>

type_synonym u8 = "8 word"

datatype error = IndexOutOfRange | SliceBoundsOutOfRange | DivideByZero | ChanSizeOutOfRange

subsection \<open>mySort: the reverse insertion sort\<close>

text \<open>
  The inner loop \<open>for j := i; j > 0 && data[j] > data[j-1]; j--\<close> swaps the element at
  \<open>j\<close> leftwards; the outer loop runs \<open>i\<close> from 1 to \<open>len(data) - 1\<close>, so \<open>j\<close> is
  always a valid index.
\<close>

fun mySort_inner :: "nat \<Rightarrow> u8 list \<Rightarrow> u8 list" where
  "mySort_inner j data =
     (if 0 < j \<and> data ! (j - 1) < data ! j
      then mySort_inner (j - 1) (data[j := data ! (j - 1), j - 1 := data ! j])
      else data)"

declare mySort_inner.simps [simp del]

function mySort_outer :: "nat \<Rightarrow> u8 list \<Rightarrow> u8 list" where
  "mySort_outer i data =
     (if i < length data then mySort_outer (i + 1) (mySort_inner i data) else data)"
  by pat_completeness auto
termination
proof (relation "measure (\<lambda>(i, data). length data - i)")
  show "wf (measure (\<lambda>(i, data). length data - i))"
    by simp
next
  fix i :: nat and data :: "u8 list"
  assume less: "i < length data"
  have len: "length (mySort_inner j d) = length d" for j d
  proof (induction j d rule: mySort_inner.induct)
    case (1 j d)
    then show ?case
      by (subst mySort_inner.simps) simp
  qed
  show "((i + 1, mySort_inner i data), (i, data)) \<in> measure (\<lambda>(i, data). length data - i)"
    using less by (simp add: len)
qed

declare mySort_outer.simps [simp del]

definition mySort :: "u8 list \<Rightarrow> u8 list" where
  "mySort data = mySort_outer 1 data"

subsection \<open>shuffle\<close>

text \<open>
  The generator is the external xoroshiro library; only its method \<open>Int32n\<close> is used. It
  is a parameter \<open>int32n\<close>: from a generator state and the bound \<open>n\<close> it gives the drawn
  index and the next state. The loop counts \<open>n\<close> down from \<open>len(vals)\<close> to 1 and swaps
  \<open>vals[n-1]\<close> with \<open>vals[randIndex]\<close>; an index outside the slice panics.
\<close>

type_synonym 'r int32n = "'r \<Rightarrow> nat \<Rightarrow> nat \<times> 'r"

fun shuffle_loop :: "'r int32n \<Rightarrow> nat \<Rightarrow> u8 list \<Rightarrow> 'r \<Rightarrow> error + (u8 list \<times> 'r)" where
  "shuffle_loop int32n 0 vals rnd = Inr (vals, rnd)"
| "shuffle_loop int32n (Suc m) vals rnd =
     (case int32n rnd (Suc m) of (randIndex, rnd') \<Rightarrow>
        if randIndex < length vals
        then shuffle_loop int32n m (vals[m := vals ! randIndex, randIndex := vals ! m]) rnd'
        else Inl IndexOutOfRange)"

definition shuffle :: "'r int32n \<Rightarrow> u8 list \<Rightarrow> 'r \<Rightarrow> error + (u8 list \<times> 'r)" where
  "shuffle int32n vals rnd = shuffle_loop int32n (length vals) vals rnd"

text \<open>The contract of \<open>Int32n\<close>: for a positive bound the drawn index is below it.\<close>

definition rand_ok :: "'r int32n \<Rightarrow> bool" where
  "rand_ok int32n = (\<forall>rnd n. 0 < n \<longrightarrow> fst (int32n rnd n) < n)"

subsection \<open>player: the circular queue of cards\<close>

definition qlen :: nat where
  "qlen = 64"

record player =
  cards :: "u8 list"
  rIdx :: nat
  wIdx :: nat

text \<open>The zero value \<open>player{}\<close> that \<open>playN\<close> allocates.\<close>

definition new_player :: player where
  "new_player = \<lparr>cards = replicate qlen 0, rIdx = 0, wIdx = 0\<rparr>"

text \<open>
  Go's \<open>copy(dst[off:], src)\<close> on the array \<open>dst\<close>: it copies
  \<open>min (len dst - off) (len src)\<close> elements and returns that count.
\<close>

definition copy_count :: "u8 list \<Rightarrow> nat \<Rightarrow> u8 list \<Rightarrow> nat" where
  "copy_count dst off src = min (length dst - off) (length src)"

definition copy_at :: "u8 list \<Rightarrow> nat \<Rightarrow> u8 list \<Rightarrow> u8 list" where
  "copy_at dst off src =
     take off dst @ take (copy_count dst off src) src @ drop (off + copy_count dst off src) dst"

definition Reset :: "player \<Rightarrow> u8 list \<Rightarrow> player" where
  "Reset rg cs = \<lparr>cards = copy_at (cards rg) 0 cs, rIdx = 0, wIdx = copy_count (cards rg) 0 cs\<rparr>"

definition Alive :: "player \<Rightarrow> bool" where
  "Alive rg = (rIdx rg \<noteq> wIdx rg)"

text \<open>
  \<open>DrawCard\<close> reads \<open>cards[rIdx]\<close>; the read index starts at 0 and wraps at \<open>qlen\<close>, so it
  is an index of the array in every state that the methods reach.
\<close>

definition DrawCard :: "player \<Rightarrow> u8 \<times> player" where
  "DrawCard rg =
     (if rIdx rg = wIdx rg then (0, rg)
      else (cards rg ! rIdx rg,
            rg\<lparr>rIdx := (if rIdx rg + 1 = qlen then 0 else rIdx rg + 1)\<rparr>))"

text \<open>
  \<open>Accept\<close> slices \<open>rg.cards[rg.wIdx:]\<close>, which panics when the write index is beyond
  the array; otherwise it copies up to the end of the array, the rest from the start,
  and reduces the write index by \<open>qlen\<close> only when it is strictly greater.
\<close>

definition Accept :: "player \<Rightarrow> u8 list \<Rightarrow> error + player" where
  "Accept rg winnings =
     (if qlen < wIdx rg then Inl SliceBoundsOutOfRange
      else
        let n = copy_count (cards rg) (wIdx rg) winnings;
            cs1 = copy_at (cards rg) (wIdx rg) winnings;
            cs2 = (if n < length winnings then copy_at cs1 0 (drop n winnings) else cs1);
            w = wIdx rg + length winnings
        in Inr (rg\<lparr>cards := cs2, wIdx := (if qlen < w then w - qlen else w)\<rparr>))"

subsection \<open>makeDeck\<close>

definition makeDeck :: "u8 list" where
  "makeDeck = concat (map (\<lambda>j. map of_nat [2..<15]) [0..<4::nat])"

subsection \<open>playGame\<close>

text \<open>
  \<open>playGame\<close> takes two pointers; \<open>playN\<close>, its only caller, passes two different players,
  so the two hands are separate values here.

  One round of the war loop: a face-down card and a compared card from each hand, written
  to \<open>wins[winIdx .. winIdx+3]\<close>. The buffer \<open>wins\<close> is the list of the entries written so
  far in this trick, so \<open>winIdx\<close> is its length and \<open>wins[:winIdx]\<close> is the list itself.
  Every trick overwrites the array from index 0, so nothing of an earlier trick is read.
  A write at index 64 or more panics: since \<open>winIdx\<close> is 2 plus a multiple of 4, that is
  the round that starts with \<open>winIdx = 62\<close>, and as the panic ends the program the model
  reports it before the draws of that round.
\<close>

definition war_round ::
  "player \<Rightarrow> player \<Rightarrow> u8 list \<Rightarrow> player \<times> player \<times> u8 \<times> u8 \<times> u8 list" where
  "war_round p1 p2 wins =
     (case DrawCard p1 of (a, p1a) \<Rightarrow>
     (case DrawCard p2 of (b, p2a) \<Rightarrow>
     (case DrawCard p1a of (c1, p1b) \<Rightarrow>
     (case DrawCard p2a of (c2, p2b) \<Rightarrow>
        (p1b, p2b, c1, c2, wins @ [a, b, c1, c2])))))"

function war ::
  "player \<Rightarrow> player \<Rightarrow> u8 \<Rightarrow> u8 \<Rightarrow> u8 list \<Rightarrow> error + (player \<times> player \<times> u8 \<times> u8 \<times> u8 list)" where
  "war p1 p2 c1 c2 wins =
     (if c1 = c2 \<and> Alive p1 then
        if qlen < length wins + 4 then Inl IndexOutOfRange
        else (case war_round p1 p2 wins of (p1b, p2b, c1', c2', wins') \<Rightarrow>
                war p1b p2b c1' c2' wins')
      else Inr (p1, p2, c1, c2, wins))"
  by pat_completeness auto
termination
  by (relation "measure (\<lambda>(p1, p2, c1, c2, wins). qlen + 4 - length wins)")
     (auto simp: war_round_def split: prod.splits)

declare war.simps [simp del]

text \<open>The body of the trick loop.\<close>

definition trick ::
  "'r int32n \<Rightarrow> player \<Rightarrow> player \<Rightarrow> 'r \<Rightarrow> error + (player \<times> player \<times> 'r)" where
  "trick int32n p1 p2 rnd =
     (case DrawCard p1 of (c1, p1a) \<Rightarrow>
     (case DrawCard p2 of (c2, p2a) \<Rightarrow>
     (case war p1a p2a c1 c2 [c1, c2] of
        Inl e \<Rightarrow> Inl e
      | Inr (p1b, p2b, c1', c2', winnings) \<Rightarrow>
          if c2' < c1' then
            (case shuffle int32n winnings rnd of
               Inl e \<Rightarrow> Inl e
             | Inr (ws, rnd') \<Rightarrow>
                 (case Accept p1b ws of
                    Inl e \<Rightarrow> Inl e
                  | Inr p1c \<Rightarrow> Inr (p1c, p2b, rnd')))
          else
            (case Accept p2b (mySort winnings) of
               Inl e \<Rightarrow> Inl e
             | Inr p2c \<Rightarrow> Inr (p1b, p2c, rnd)))))"

text \<open>
  The trick loop may run forever, so it takes fuel: the number of tricks it may play.
  \<open>None\<close> is running out of fuel; \<open>Some (Inl e)\<close> is a panic; \<open>Some (Inr (r, ...))\<close> is the
  returned indicator \<open>r\<close> with the final hands and generator state.
\<close>

fun playGame ::
  "nat \<Rightarrow> 'r int32n \<Rightarrow> player \<Rightarrow> player \<Rightarrow> 'r \<Rightarrow> (error + (int \<times> player \<times> player \<times> 'r)) option" where
  "playGame 0 int32n p1 p2 rnd =
     (if Alive p1 \<and> Alive p2 then None
      else Some (Inr (if Alive p2 then 1 else 0, p1, p2, rnd)))"
| "playGame (Suc fuel) int32n p1 p2 rnd =
     (if Alive p1 \<and> Alive p2 then
        (case trick int32n p1 p2 rnd of
           Inl e \<Rightarrow> Some (Inl e)
         | Inr (p1', p2', rnd') \<Rightarrow> playGame fuel int32n p1' p2' rnd')
      else Some (Inr (if Alive p2 then 1 else 0, p1, p2, rnd)))"

text \<open>
  The state at the head of the trick loop after at most \<open>n\<close> iterations of its body:
  the loop stops as soon as a hand is not alive.
\<close>

fun tricks ::
  "nat \<Rightarrow> 'r int32n \<Rightarrow> player \<Rightarrow> player \<Rightarrow> 'r \<Rightarrow> error + (player \<times> player \<times> 'r)" where
  "tricks 0 int32n p1 p2 rnd = Inr (p1, p2, rnd)"
| "tricks (Suc n) int32n p1 p2 rnd =
     (if Alive p1 \<and> Alive p2 then
        (case trick int32n p1 p2 rnd of
           Inl e \<Rightarrow> Inl e
         | Inr (p1', p2', rnd') \<Rightarrow> tricks n int32n p1' p2' rnd')
      else Inr (p1, p2, rnd))"

subsection \<open>playN and main\<close>

text \<open>
  \<open>playN\<close> plays \<open>n\<close> games with one generator, one deck and two players that it reuses.
  The model returns the final loop counter \<open>i\<close> (the number of games played) with the
  win count that the Go function sends on the channel.
\<close>

function playN_loop ::
  "nat \<Rightarrow> 'r int32n \<Rightarrow> int \<Rightarrow> int \<Rightarrow> u8 list \<Rightarrow> player \<Rightarrow> player \<Rightarrow> int \<Rightarrow> 'r
     \<Rightarrow> (error + (int \<times> int)) option" where
  "playN_loop fuel int32n n i deck p1 p2 wins rnd =
     (if i < n then
        (case shuffle int32n deck rnd of
           Inl e \<Rightarrow> Some (Inl e)
         | Inr (deck', rnd1) \<Rightarrow>
             (case playGame fuel int32n (Reset p1 (take 26 deck')) (Reset p2 (drop 26 deck')) rnd1 of
                None \<Rightarrow> None
              | Some (Inl e) \<Rightarrow> Some (Inl e)
              | Some (Inr (r, p1', p2', rnd2)) \<Rightarrow>
                  playN_loop fuel int32n n (i + 1) deck' p1' p2' (wins + r) rnd2))
      else Some (Inr (i, wins)))"
  by pat_completeness auto
termination
  by (relation "measure (\<lambda>(fuel, int32n, n, i, rest). nat (n - i))") auto

declare playN_loop.simps [simp del]

definition playN :: "nat \<Rightarrow> 'r int32n \<Rightarrow> int \<Rightarrow> 'r \<Rightarrow> (error + (int \<times> int)) option" where
  "playN fuel int32n n rnd = playN_loop fuel int32n n 0 makeDeck new_player new_player 0 rnd"

text \<open>
  \<open>main\<close> starts one \<open>playN\<close> per worker and adds up what the workers send on the
  channel. A panic in any worker ends the program, whether or not the others have
  answered; if no worker panics and one of them never answers, \<open>main\<close> waits forever.
  The answers are listed in the order of the workers; \<open>main\<close> receives them in the order
  in which they arrive and only adds them up. When several workers panic, the panic
  reported here is that of the first of them.
\<close>

fun gather :: "(error + 'a) option list \<Rightarrow> (error + 'a list) option" where
  "gather [] = Some (Inr [])"
| "gather (r # rs) =
     (case r of
        Some (Inl e) \<Rightarrow> Some (Inl e)
      | None \<Rightarrow> (case gather rs of Some (Inl e) \<Rightarrow> Some (Inl e) | _ \<Rightarrow> None)
      | Some (Inr a) \<Rightarrow>
          (case gather rs of
             None \<Rightarrow> None
           | Some (Inl e) \<Rightarrow> Some (Inl e)
           | Some (Inr as) \<Rightarrow> Some (Inr (a # as))))"

text \<open>
  \<open>main\<close> divides the games among the workers with Go's truncating division, where a
  zero divisor panics, and makes the channel with \<open>make(chan int, *nProcs)\<close>, which panics
  when the size is negative or larger than the run-time system can allocate. That largest
  size depends on the platform; it is the parameter \<open>chanCap\<close>. The two flags are Go
  \<open>int\<close>s; for a positive worker count the quotient, the product, the loop counters and
  the sums are no larger in magnitude than the games count, so nothing wraps around and
  the integers are unbounded here. Worker \<open>i\<close> starts from the generator state \<open>seed i\<close>,
  which stands for the two values it takes from the process-wide generator.
\<close>

definition main_go ::
  "nat \<Rightarrow> 'r int32n \<Rightarrow> (nat \<Rightarrow> 'r) \<Rightarrow> int \<Rightarrow> int \<Rightarrow> int
     \<Rightarrow> (error + (int \<times> int \<times> (int \<times> int) list)) option" where
  "main_go fuel int32n seed chanCap nGames nProcs =
     (if nProcs = 0 then Some (Inl DivideByZero)
      else
        let gamesPerCore = nGames sdiv nProcs;
            totalGames = gamesPerCore * nProcs
        in if nProcs < 0 \<or> chanCap < nProcs then Some (Inl ChanSizeOutOfRange)
           else
             (case gather (map (\<lambda>i. playN fuel int32n gamesPerCore (seed i)) [0..<nat nProcs]) of
                None \<Rightarrow> None
              | Some (Inl e) \<Rightarrow> Some (Inl e)
              | Some (Inr answers) \<Rightarrow>
                  Some (Inr (sum_list (map snd answers), totalGames, answers))))"

subsection \<open>The worker as the specification describes it\<close>

text \<open>
  The specification of the worker: for each of its \<open>n\<close> games in turn, shuffle the deck,
  split it into two halves of 26 cards, reset both hands, play one game and count the
  result. \<open>worker_games\<close> lists the results of the games played, in order; it has no
  answer when a game does not return, and it is a panic when a game panics.
\<close>

fun worker_games ::
  "nat \<Rightarrow> 'r int32n \<Rightarrow> nat \<Rightarrow> u8 list \<Rightarrow> player \<Rightarrow> player \<Rightarrow> 'r \<Rightarrow> (error + int list) option" where
  "worker_games fuel int32n 0 deck p1 p2 rnd = Some (Inr [])"
| "worker_games fuel int32n (Suc n) deck p1 p2 rnd =
     (case shuffle int32n deck rnd of
        Inl e \<Rightarrow> Some (Inl e)
      | Inr (deck', rnd1) \<Rightarrow>
          (case playGame fuel int32n (Reset p1 (take 26 deck')) (Reset p2 (drop 26 deck')) rnd1 of
             None \<Rightarrow> None
           | Some (Inl e) \<Rightarrow> Some (Inl e)
           | Some (Inr (res, p1', p2', rnd2)) \<Rightarrow>
               (case worker_games fuel int32n n deck' p1' p2' rnd2 of
                  None \<Rightarrow> None
                | Some (Inl e) \<Rightarrow> Some (Inl e)
                | Some (Inr rs) \<Rightarrow> Some (Inr (res # rs)))))"

subsection \<open>Reading the hand as a queue\<close>

text \<open>
  The array type fixes the length of \<open>cards\<close>, and the methods keep the read index an
  index of the array and the write index at most \<open>qlen\<close>.
\<close>

definition wf_player :: "player \<Rightarrow> bool" where
  "wf_player rg = (length (cards rg) = qlen \<and> rIdx rg < qlen \<and> wIdx rg \<le> qlen)"

text \<open>The cards between the read index and the write index, in drawing order.\<close>

definition hand_cards :: "player \<Rightarrow> u8 list" where
  "hand_cards rg =
     (if rIdx rg \<le> wIdx rg then take (wIdx rg - rIdx rg) (drop (rIdx rg) (cards rg))
      else drop (rIdx rg) (cards rg) @ take (wIdx rg) (cards rg))"

text \<open>\<open>n\<close> successive calls of \<open>DrawCard\<close>: the cards returned, and the hand left.\<close>

fun draw_n :: "nat \<Rightarrow> player \<Rightarrow> u8 list \<times> player" where
  "draw_n 0 rg = ([], rg)"
| "draw_n (Suc n) rg =
     (case DrawCard rg of (c, rg') \<Rightarrow>
     (case draw_n n rg' of (cs, rg'') \<Rightarrow> (c # cs, rg'')))"

text \<open>Sequences of the three mutating methods, stopped by the first panic.\<close>

datatype hand_op = OpReset "u8 list" | OpDrawCard | OpAccept "u8 list"

fun apply_op :: "player \<Rightarrow> hand_op \<Rightarrow> error + player" where
  "apply_op rg (OpReset cs) = Inr (Reset rg cs)"
| "apply_op rg OpDrawCard = Inr (snd (DrawCard rg))"
| "apply_op rg (OpAccept ws) = Accept rg ws"

fun run_ops :: "hand_op list \<Rightarrow> player \<Rightarrow> error + player" where
  "run_ops [] rg = Inr rg"
| "run_ops (x # xs) rg = (case apply_op rg x of Inl e \<Rightarrow> Inl e | Inr rg' \<Rightarrow> run_ops xs rg')"

text \<open>
  The hand as the specification describes it: a first-in first-out queue of cards.
  \<open>Reset\<close> loads at most \<open>qlen\<close> cards, \<open>DrawCard\<close> removes the first card if there is
  one, \<open>Accept\<close> appends.
\<close>

fun spec_queue :: "hand_op list \<Rightarrow> u8 list \<Rightarrow> u8 list" where
  "spec_queue [] q = q"
| "spec_queue (OpReset cs # xs) q = spec_queue xs (take qlen cs)"
| "spec_queue (OpDrawCard # xs) q = spec_queue xs (tl q)"
| "spec_queue (OpAccept ws # xs) q = spec_queue xs (q @ ws)"

subsection \<open>Generators and deals used as concrete inputs\<close>

text \<open>
  Three generators that satisfy the contract on the calls made below: one that always
  answers the largest index (so \<open>shuffle\<close> leaves the order as it is), one that always
  answers 0, and one that reads its answers from a list.
\<close>

definition gen_last :: "unit int32n" where
  "gen_last rnd n = (n - 1, rnd)"

definition gen_zero :: "unit int32n" where
  "gen_zero rnd n = (0, rnd)"

definition gen_script :: "nat list int32n" where
  "gen_script rnd n = (case rnd of [] \<Rightarrow> (0, []) | x # xs \<Rightarrow> (x, xs))"

text \<open>
  A deal of the standard deck and a list of generator answers under which the 65th trick
  of the game starts sixteen war rounds. Hand 1 wins 45 tricks of two cards, so \<open>shuffle\<close>
  asks 45 times for an index below 2 and then for one below 1: the answers at even
  positions are 0 or 1, those at odd positions are 0.
\<close>

definition overflow_hand1 :: "u8 list" where
  "overflow_hand1 =
     [5, 9, 7, 8, 10, 5, 4, 4, 2, 8, 4, 3, 6, 2, 7, 2, 3, 3, 2, 11, 14, 14, 14, 13, 14, 13]"

definition overflow_hand2 :: "u8 list" where
  "overflow_hand2 =
     [6, 11, 13, 11, 11, 9, 6, 9, 6, 10, 5, 12, 10, 3, 8, 7, 5, 8, 4, 9, 12, 12, 13, 12, 10, 7]"

definition overflow_script :: "nat list" where
  "overflow_script =
     [1, 0, 1, 0, 1, 0, 0, 0, 1, 0, 0, 0, 0, 0, 1, 0, 1, 0, 0, 0, 1, 0, 1, 0, 1, 0, 0, 0, 1, 0,
      0, 0, 1, 0, 1, 0, 1, 0, 0, 0, 1, 0, 1, 0, 1, 0, 0, 0, 1, 0, 0, 0, 0, 0, 0, 0, 0, 0, 0, 0,
      1, 0, 0, 0, 0, 0, 1, 0, 1, 0, 1, 0, 1, 0, 0, 0, 0, 0, 1, 0, 1, 0, 0, 0, 1, 0, 0, 0, 1, 0]"

text \<open>Sixty-four distinct cards, as many as the array has slots.\<close>

definition full_hand :: "u8 list" where
  "full_hand = map of_nat [1..<65]"

text \<open>
  The sequences of operations that keep the queue below \<open>qlen\<close> cards and never draw from
  read index \<open>qlen - 1\<close> while the write index rests at \<open>qlen\<close>.
\<close>

fun within_capacity :: "hand_op list \<Rightarrow> player \<Rightarrow> bool" where
  "within_capacity [] rg = True"
| "within_capacity (OpReset cs # xs) rg = (length cs < qlen \<and> within_capacity xs (Reset rg cs))"
| "within_capacity (OpDrawCard # xs) rg =
     (\<not> (rIdx rg = qlen - 1 \<and> wIdx rg = qlen) \<and> within_capacity xs (snd (DrawCard rg)))"
| "within_capacity (OpAccept ws # xs) rg =
     (length (hand_cards rg) + length ws < qlen \<and>
      (case Accept rg ws of Inl e \<Rightarrow> False | Inr rg' \<Rightarrow> within_capacity xs rg'))"

text \<open>Thirty-two cards accepted and drawn, twice: the hand never holds more than 32.\<close>

definition slip_ops :: "hand_op list" where
  "slip_ops = OpAccept (replicate 32 5) # replicate 32 OpDrawCard
              @ OpAccept (replicate 32 5) # replicate 32 OpDrawCard"

text \<open>
  Generator answers for three games of one worker: the first shuffle turns \<open>makeDeck\<close>
  into a deal in which every card of hand 2 beats the card of hand 1 it meets, the later
  shuffles leave the deck as it is.
\<close>

definition sweep_script :: "nat list" where
  "sweep_script =
     [51, 38, 25, 12, 38, 37, 24, 11, 36, 25, 23, 10, 35, 22, 12, 9, 34, 22, 21, 8, 21, 20, 12, 7,
      24, 19, 8, 6, 21, 18, 11, 5, 17, 9, 5, 4, 12, 8, 4, 3, 11, 7, 3, 2, 7, 6, 2, 1, 3, 2, 1, 0]
     @ rev [0..<52] @ rev [0..<52]"

text \<open>
  Whether the trick loop plays \<open>n\<close> tricks without panic and with both hands alive before
  each.
\<close>

fun all_alive :: "nat \<Rightarrow> 'r int32n \<Rightarrow> player \<Rightarrow> player \<Rightarrow> 'r \<Rightarrow> bool" where
  "all_alive 0 int32n p1 p2 rnd = True"
| "all_alive (Suc n) int32n p1 p2 rnd =
     (Alive p1 \<and> Alive p2 \<and>
      (case trick int32n p1 p2 rnd of
         Inl e \<Rightarrow> False
       | Inr (p1', p2', rnd') \<Rightarrow> all_alive n int32n p1' p2' rnd'))"

text \<open>
  \<open>Accept\<close> leaves the write index resting at \<open>qlen\<close> when it fills the array to its
  end. A hand is caught there in a trick when it started the trick with its write index
  at \<open>qlen\<close>, drew its last card, so that its read index came back to the start of the
  array, and then either drew again or did not win the trick: its read index ends below
  where it started, and it ends away from 0 or with the write index still at \<open>qlen\<close>.
  A hand that draws its last card there and wins the trick is not caught: \<open>Accept\<close>
  then writes its winnings at the start of the array.
\<close>

definition wrapped :: "player \<Rightarrow> player \<Rightarrow> bool" where
  "wrapped rg rg' = (wIdx rg = qlen \<and> rIdx rg' < rIdx rg \<and> (rIdx rg' \<noteq> 0 \<or> wIdx rg' = qlen))"

text \<open>Whether no hand is caught in the first \<open>n\<close> tricks of the loop.\<close>

fun steady :: "nat \<Rightarrow> 'r int32n \<Rightarrow> player \<Rightarrow> player \<Rightarrow> 'r \<Rightarrow> bool" where
  "steady 0 int32n p1 p2 rnd = True"
| "steady (Suc n) int32n p1 p2 rnd =
     (if Alive p1 \<and> Alive p2 then
        (case trick int32n p1 p2 rnd of
           Inl e \<Rightarrow> True
         | Inr (p1', p2', rnd') \<Rightarrow>
             \<not> wrapped p1 p1' \<and> \<not> wrapped p2 p2' \<and> steady n int32n p1' p2' rnd')
      else True)"

text \<open>Whether the first cards compared differ in each of the first \<open>n\<close> tricks of the loop.\<close>

fun tie_free :: "nat \<Rightarrow> 'r int32n \<Rightarrow> player \<Rightarrow> player \<Rightarrow> 'r \<Rightarrow> bool" where
  "tie_free 0 int32n p1 p2 rnd = True"
| "tie_free (Suc n) int32n p1 p2 rnd =
     (if Alive p1 \<and> Alive p2 then
        fst (DrawCard p1) \<noteq> fst (DrawCard p2) \<and>
        (case trick int32n p1 p2 rnd of
           Inl e \<Rightarrow> True
         | Inr (p1', p2', rnd') \<Rightarrow> tie_free n int32n p1' p2' rnd')
      else True)"

text \<open>The two hands hold exactly the cards of the multiset \<open>D\<close>.\<close>

definition conserved :: "u8 multiset \<Rightarrow> player \<Rightarrow> player \<Rightarrow> bool" where
  "conserved D p1 p2 =
     (wf_player p1 \<and> wf_player p2 \<and> mset (hand_cards p1) + mset (hand_cards p2) = D)"

text \<open>
  A deal of the standard deck in which hand 2 wins 24 tricks and the 25th is a war that
  hand 1 cannot finish.
\<close>

definition short_hand1 :: "u8 list" where
  "short_hand1 = [2, 2, 2, 2, 3, 3, 3, 3, 4, 4, 4, 4, 5, 5, 5, 5, 6, 6, 6, 6, 7, 7, 7, 7, 8, 8]"

definition short_hand2 :: "u8 list" where
  "short_hand2 = [9, 9, 9, 9, 10, 10, 10, 10, 11, 11, 11, 11, 12, 12, 12, 12, 13, 13, 13, 13,
                  14, 14, 14, 14, 8, 8]"

text \<open>
  A hand that holds the other 26 cards of the deck of \<open>short_hand1\<close> in an order in which
  each of them beats the card of \<open>short_hand1\<close> that it meets: there are no ties and hand
  2 wins all 26 tricks.
\<close>

definition sweep_hand2 :: "u8 list" where
  "sweep_hand2 = [8, 8, 9, 9, 9, 9, 10, 10, 10, 10, 11, 11, 11, 11, 12, 12, 12, 12, 13, 13, 13, 13,
                  14, 14, 14, 14]"

text \<open>
  A deal of the standard deck without ties: hand 1 wins the first trick, loses the next
  25, and loses the two cards it won in tricks 27 and 28.
\<close>

definition long_hand1 :: "u8 list" where
  "long_hand1 = [3, 4, 2, 2, 2, 3, 3, 3, 4, 4, 4, 5, 5, 5, 5, 6, 6, 6, 6, 7, 7, 7, 7, 8, 8, 8]"

definition long_hand2 :: "u8 list" where
  "long_hand2 = [2, 8, 9, 9, 9, 9, 10, 10, 10, 10, 11, 11, 11, 11, 12, 12, 12, 12, 13, 13, 13, 13,
                 14, 14, 14, 14]"

section \<open>Properties of mySort\<close>

text \<open>
  With the first \<open>length rs\<close> entries in non-increasing order (\<open>rs\<close> is that prefix read
  backwards), the inner loop inserts the next entry into it.
\<close>

lemma mySort_inner_insort:
  "mySort_inner (length rs) (rev rs @ x # zs) = rev (insort x rs) @ zs"
proof (induction rs arbitrary: zs)
  case Nil
  show ?case by (subst mySort_inner.simps) simp
next
  case (Cons y rs)
  have nth1: "(rev rs @ y # x # zs) ! length rs = y"
    by (metis length_rev nth_append_length)
  have nth2: "(rev rs @ y # x # zs) ! Suc (length rs) = x"
    by (metis append.assoc append_Cons append_Nil length_append_singleton length_rev nth_append_length)
  have upd: "(rev rs @ y # x # zs)[Suc (length rs) := y, length rs := x] = rev rs @ x # y # zs"
    by (simp add: list_update_append)
  show ?case
  proof (cases "y < x")
    case True
    have "mySort_inner (length (y # rs)) (rev (y # rs) @ x # zs)
        = mySort_inner (length rs) (rev rs @ x # y # zs)"
      using True nth1 nth2 upd by (subst mySort_inner.simps) simp
    also have "\<dots> = rev (insort x rs) @ y # zs"
      by (rule Cons.IH)
    finally show ?thesis using True by simp
  next
    case False
    then have "rev (insort x (y # rs)) @ zs = rev rs @ y # x # zs"
      by (simp add: not_less)
    then show ?thesis using False nth1 nth2
      by (subst mySort_inner.simps) simp
  qed
qed

lemma mySort_outer_fold:
  "mySort_outer (length ys) (ys @ rest) = rev (fold insort rest (rev ys))"
proof (induction rest arbitrary: ys)
  case Nil
  show ?case by (subst mySort_outer.simps) simp
next
  case (Cons x rest)
  have inner: "mySort_inner (length ys) (ys @ x # rest) = rev (insort x (rev ys)) @ rest"
    using mySort_inner_insort [of "rev ys" x rest] by simp
  have "mySort_outer (length ys) (ys @ x # rest)
      = mySort_outer (length (rev (insort x (rev ys)))) (rev (insort x (rev ys)) @ rest)"
    by (subst mySort_outer.simps) (simp add: inner)
  also have "\<dots> = rev (fold insort rest (rev (rev (insort x (rev ys)))))"
    by (rule Cons.IH)
  finally show ?case by simp
qed

lemma mySort_Cons: "mySort (x # rest) = rev (fold insort rest [x])"
  using mySort_outer_fold [of "[x]" rest] by (simp add: mySort_def)

lemma mySort_Nil: "mySort [] = []"
  by (simp add: mySort_def mySort_outer.simps)

lemma sorted_fold_insort: "sorted acc \<Longrightarrow> sorted (fold insort rest acc)"
  by (induction rest arbitrary: acc) (simp_all add: sorted_insort)

lemma mset_fold_insort: "mset (fold insort rest acc) = mset rest + mset acc"
  by (induction rest arbitrary: acc) simp_all

lemma mset_mySort: "mset (mySort data) = mset data"
  by (cases data) (simp_all add: mySort_Nil mySort_Cons mset_fold_insort)

lemma length_mySort: "length (mySort data) = length data"
  using mset_mySort [of data] by (metis size_mset)

lemma non_increasing_mySort: "sorted_wrt (\<lambda>a b. b \<le> a) (mySort data)"
proof (cases data)
  case Nil
  then show ?thesis by (simp add: mySort_Nil)
next
  case (Cons x rest)
  have "sorted (fold insort rest [x])"
    by (rule sorted_fold_insort) simp
  then show ?thesis
    by (simp add: Cons mySort_Cons sorted_wrt_rev)
qed

lemma mySort_inner_sorted:
  assumes "sorted_wrt (\<lambda>a b. b \<le> a) data" "i < length data"
  shows "mySort_inner i data = data"
proof (cases "0 < i")
  case True
  then have "data ! i \<le> data ! (i - 1)"
    using assms sorted_wrt_nth_less [of "\<lambda>a b. b \<le> a" data "i - 1" i] by simp
  then have "\<not> data ! (i - 1) < data ! i"
    by (simp add: not_less)
  then show ?thesis
    by (subst mySort_inner.simps) simp
next
  case False
  then show ?thesis by (subst mySort_inner.simps) simp
qed

lemma mySort_outer_sorted:
  "sorted_wrt (\<lambda>a b. b \<le> a) data \<Longrightarrow> mySort_outer i data = data"
proof (induction i data rule: mySort_outer.induct)
  case (1 i data)
  show ?case
  proof (cases "i < length data")
    case True
    then have "mySort_inner i data = data"
      using "1.prems" by (simp add: mySort_inner_sorted)
    then show ?thesis
      using True "1.IH" "1.prems" by (subst mySort_outer.simps) simp
  next
    case False
    then show ?thesis by (subst mySort_outer.simps) simp
  qed
qed

text \<open>
  Claim C9. For every byte sequence, \<open>mySort\<close> gives a sequence in non-increasing
  order that is a permutation of its input, and sorting a second time changes nothing.
\<close>

theorem mySort_sorts:
  "sorted_wrt (\<lambda>a b. b \<le> a) (mySort data) \<and> mset (mySort data) = mset data
   \<and> mySort (mySort data) = mySort data"
  using non_increasing_mySort [of data] mset_mySort [of data]
    mySort_outer_sorted [of "mySort data" 1]
  by (simp add: mySort_def)

section \<open>Properties of the trick\<close>

lemma shuffle_loop_ok:
  assumes "rand_ok int32n" "m \<le> length vals"
  shows "\<exists>ws rnd'. shuffle_loop int32n m vals rnd = Inr (ws, rnd') \<and> mset ws = mset vals
           \<and> length ws = length vals"
  using assms(2)
proof (induction m arbitrary: vals rnd)
  case 0
  then show ?case by simp
next
  case (Suc m)
  obtain k rnd1 where draw: "int32n rnd (Suc m) = (k, rnd1)"
    by (cases "int32n rnd (Suc m)")
  have "k < Suc m"
    using assms(1) draw unfolding rand_ok_def by (metis fst_conv zero_less_Suc)
  then have k: "k < length vals" and m: "m < length vals"
    using Suc.prems by simp_all
  let ?vals = "vals[m := vals ! k, k := vals ! m]"
  have perm: "mset ?vals = mset vals"
    using k m by (simp add: mset_swap)
  have "m \<le> length ?vals"
    using m by simp
  from Suc.IH [OF this, of rnd1] obtain ws rnd' where
    "shuffle_loop int32n m ?vals rnd1 = Inr (ws, rnd')" "mset ws = mset ?vals"
    "length ws = length ?vals"
    by blast
  then show ?case
    using draw k perm by simp
qed

lemma shuffle_ok:
  assumes "rand_ok int32n"
  shows "\<exists>ws rnd'. shuffle int32n vals rnd = Inr (ws, rnd') \<and> mset ws = mset vals
           \<and> length ws = length vals"
  unfolding shuffle_def using shuffle_loop_ok [OF assms, of "length vals" vals rnd] by simp

lemma wIdx_DrawCard: "wIdx (snd (DrawCard rg)) = wIdx rg"
  by (simp add: DrawCard_def)

lemma war_round_wIdx:
  "war_round p1 p2 wins = (p1b, p2b, d1, d2, W) \<Longrightarrow> wIdx p1b = wIdx p1 \<and> wIdx p2b = wIdx p2"
  by (auto simp: war_round_def DrawCard_def split: prod.splits if_splits)

lemma war_exit:
  "war p1 p2 c1 c2 wins = Inr (p1b, p2b, d1, d2, W) \<Longrightarrow>
     \<not> (d1 = d2 \<and> Alive p1b) \<and> wIdx p1b = wIdx p1 \<and> wIdx p2b = wIdx p2"
proof (induction p1 p2 c1 c2 wins rule: war.induct)
  case (1 p1 p2 c1 c2 wins)
  show ?case
  proof (cases "c1 = c2 \<and> Alive p1")
    case True
    with "1.prems" have room: "\<not> qlen < length wins + 4"
      by (subst (asm) war.simps) (simp split: if_splits)
    obtain q1 q2 e1 e2 W' where round: "war_round p1 p2 wins = (q1, q2, e1, e2, W')"
      by (metis prod_cases5)
    have rec: "war q1 q2 e1 e2 W' = Inr (p1b, p2b, d1, d2, W)"
      using "1.prems" True room round by (subst (asm) war.simps) simp
    have "\<not> (d1 = d2 \<and> Alive p1b) \<and> wIdx p1b = wIdx q1 \<and> wIdx p2b = wIdx q2"
      using "1.IH" [OF True room, of q1 "(q2, e1, e2, W')" q2 "(e1, e2, W')" e1 "(e2, W')" e2 W']
        round rec by simp
    then show ?thesis
      using war_round_wIdx [OF round] by simp
  next
    case False
    with "1.prems" show ?thesis
      by (subst (asm) war.simps) auto
  qed
qed

lemma Accept_ok: "wIdx rg \<le> qlen \<Longrightarrow> \<exists>rg'. Accept rg ws = Inr rg'"
  by (simp add: Accept_def Let_def)

lemma rand_ok_gen_last: "rand_ok gen_last"
  by (simp add: rand_ok_def gen_last_def)

section \<open>The overflow of the trick buffer\<close>

text \<open>
  Claim C10. The claim is that no game from two halves of the standard deck writes outside
  the 64-entry buffer \<open>wins\<close>. In the game below hand 2 wins 19 tricks, which leaves its
  write index at 64, and then loses its 45 cards. After these 64 tricks hand 1 holds all
  52 cards, the generator has given its 90 answers, and hand 2 is empty with its read
  index wrapped to 0: \<open>Alive\<close> still holds, and it plays its stale array against hand 1.
  Trick 65 ties sixteen times and the write to \<open>wins[64]\<close> panics.
\<close>

theorem playGame_overflow:
  "mset (overflow_hand1 @ overflow_hand2) = mset makeDeck
   \<and> length overflow_hand1 = 26 \<and> length overflow_hand2 = 26
   \<and> list_all (\<lambda>(i, x). x < 2 - i mod 2) (enumerate 0 overflow_script)
   \<and> (case tricks 64 gen_script (Reset new_player overflow_hand1)
              (Reset new_player overflow_hand2) overflow_script of
         Inl e \<Rightarrow> False
       | Inr (a, b, rnd) \<Rightarrow>
           rIdx b = 0 \<and> wIdx b = 64 \<and> Alive b \<and> length (hand_cards a) = 52 \<and> rnd = [])
   \<and> playGame 65 gen_script (Reset new_player overflow_hand1) (Reset new_player overflow_hand2)
        overflow_script = Some (Inl IndexOutOfRange)"
  by code_simp

section \<open>The hand as a queue\<close>

lemma length_hand_cards:
  "wf_player rg \<Longrightarrow>
     length (hand_cards rg) =
       (if rIdx rg \<le> wIdx rg then wIdx rg - rIdx rg else qlen - rIdx rg + wIdx rg)"
  by (auto simp: wf_player_def hand_cards_def)

lemma Alive_hand_cards: "wf_player rg \<Longrightarrow> Alive rg \<longleftrightarrow> hand_cards rg \<noteq> []"
  by (auto simp: wf_player_def hand_cards_def Alive_def)

lemma fst_DrawCard_hand:
  assumes "wf_player rg"
  shows "fst (DrawCard rg) = (case hand_cards rg of [] \<Rightarrow> 0 | c # cs \<Rightarrow> c)"
proof (cases "rIdx rg = wIdx rg")
  case True
  then show ?thesis by (simp add: DrawCard_def hand_cards_def)
next
  case False
  have r: "rIdx rg < length (cards rg)"
    using assms by (simp add: wf_player_def)
  have "hand_cards rg \<noteq> []"
    using False assms Alive_hand_cards [of rg] by (simp add: Alive_def)
  moreover have "hd (hand_cards rg) = cards rg ! rIdx rg"
    using False r assms
    by (auto simp: hand_cards_def wf_player_def hd_drop_conv_nth hd_append)
  ultimately show ?thesis
    using False by (cases "hand_cards rg") (simp_all add: DrawCard_def)
qed

lemma snd_DrawCard_hand:
  assumes "wf_player rg" "\<not> (rIdx rg = qlen - 1 \<and> wIdx rg = qlen)"
  shows "hand_cards (snd (DrawCard rg)) = tl (hand_cards rg) \<and> wf_player (snd (DrawCard rg))"
proof (cases "rIdx rg = wIdx rg")
  case True
  then show ?thesis using assms by (simp add: DrawCard_def hand_cards_def)
next
  case False
  have len: "length (cards rg) = qlen" and r: "rIdx rg < qlen" and w: "wIdx rg \<le> qlen"
    using assms by (simp_all add: wf_player_def)
  show ?thesis
  proof (cases "rIdx rg < wIdx rg")
    case True
    then have "rIdx rg + 1 \<noteq> qlen"
      using assms(2) w by auto
    then show ?thesis
      using True False len r w
      by (auto simp: DrawCard_def hand_cards_def wf_player_def tl_take drop_Suc tl_drop)
  next
    case gt: False
    then have gt': "wIdx rg < rIdx rg" using False by simp
    show ?thesis
    proof (cases "rIdx rg + 1 = qlen")
      case True
      then have "drop (rIdx rg) (cards rg) = [cards rg ! rIdx rg]"
        using len r
        by (metis Cons_nth_drop_Suc Suc_eq_plus1 drop_all order_refl)
      then show ?thesis
        using True False gt' len r w
        by (auto simp: DrawCard_def hand_cards_def wf_player_def)
    next
      case F2: False
      then show ?thesis
        using False gt' len r w
        by (auto simp: DrawCard_def hand_cards_def wf_player_def drop_Suc tl_drop)
    qed
  qed
qed


lemma Reset_hand:
  assumes "length (cards rg) = qlen"
  shows "wf_player (Reset rg cs) \<and> hand_cards (Reset rg cs) = take qlen cs
         \<and> rIdx (Reset rg cs) = 0 \<and> wIdx (Reset rg cs) = min qlen (length cs)"
  using assms
  by (auto simp: Reset_def wf_player_def hand_cards_def copy_at_def copy_count_def qlen_def
      min_def)


lemma copy_at_fits:
  "off + length src \<le> length dst \<Longrightarrow>
     copy_at dst off src = take off dst @ src @ drop (off + length src) dst"
  by (simp add: copy_at_def copy_count_def)

lemma copy_at_over:
  "length dst \<le> off + length src \<Longrightarrow>
     copy_at dst off src = take off dst @ take (length dst - off) src"
proof -
  assume "length dst \<le> off + length src"
  then have "length dst - off \<le> length src"
    by simp
  then show ?thesis
    by (simp add: copy_at_def copy_count_def min_absorb1)
qed

lemma Accept_nowrap:
  assumes "length (cards rg) = qlen" "wIdx rg + length ws \<le> qlen"
  shows "Accept rg ws =
     Inr (rg\<lparr>cards := take (wIdx rg) (cards rg) @ ws @ drop (wIdx rg + length ws) (cards rg),
              wIdx := wIdx rg + length ws\<rparr>)"
proof -
  have "copy_count (cards rg) (wIdx rg) ws = length ws"
    using assms by (simp add: copy_count_def)
  moreover have "copy_at (cards rg) (wIdx rg) ws
      = take (wIdx rg) (cards rg) @ ws @ drop (wIdx rg + length ws) (cards rg)"
    using assms by (simp add: copy_at_fits)
  ultimately show ?thesis
    using assms by (simp add: Accept_def Let_def)
qed

lemma Accept_wrap:
  assumes "length (cards rg) = qlen" "wIdx rg \<le> qlen" "qlen < wIdx rg + length ws"
    "length ws \<le> qlen"
  shows "Accept rg ws =
     Inr (rg\<lparr>cards := drop (qlen - wIdx rg) ws
                  @ drop (wIdx rg + length ws - qlen) (take (wIdx rg) (cards rg))
                  @ take (qlen - wIdx rg) ws,
              wIdx := wIdx rg + length ws - qlen\<rparr>)"
proof -
  let ?n = "qlen - wIdx rg"
  have n: "copy_count (cards rg) (wIdx rg) ws = ?n"
    using assms by (simp add: copy_count_def)
  have cs1: "copy_at (cards rg) (wIdx rg) ws = take (wIdx rg) (cards rg) @ take ?n ws"
    using assms by (simp add: copy_at_over)
  have len1: "length (take (wIdx rg) (cards rg) @ take ?n ws) = qlen"
    using assms by simp
  have "copy_at (take (wIdx rg) (cards rg) @ take ?n ws) 0 (drop ?n ws)
      = drop ?n ws @ drop (length (drop ?n ws)) (take (wIdx rg) (cards rg) @ take ?n ws)"
    using assms len1 by (subst copy_at_fits) simp_all
  moreover have "length (drop ?n ws) = wIdx rg + length ws - qlen"
    using assms by simp
  moreover have "wIdx rg + length ws - qlen \<le> wIdx rg"
    using assms by simp
  ultimately have cs2: "copy_at (take (wIdx rg) (cards rg) @ take ?n ws) 0 (drop ?n ws)
      = drop ?n ws @ drop (wIdx rg + length ws - qlen) (take (wIdx rg) (cards rg)) @ take ?n ws"
    using assms by simp
  have "?n < length ws"
    using assms by simp
  then show ?thesis
    using assms n cs1 cs2 by (simp add: Accept_def Let_def)
qed


lemma wf_player_update:
  "length C' = qlen \<Longrightarrow> rIdx rg < qlen \<Longrightarrow> w' \<le> qlen \<Longrightarrow>
     wf_player (rg\<lparr>cards := C', wIdx := w'\<rparr>)"
  by (simp add: wf_player_def)

lemma Accept_hand:
  assumes "wf_player rg" "length (hand_cards rg) + length ws < qlen"
  shows "\<exists>rg'. Accept rg ws = Inr rg' \<and> hand_cards rg' = hand_cards rg @ ws \<and> wf_player rg'
           \<and> rIdx rg' = rIdx rg
           \<and> wIdx rg' = (if qlen < wIdx rg + length ws then wIdx rg + length ws - qlen
                          else wIdx rg + length ws)"
proof -
  let ?C = "cards rg" and ?r = "rIdx rg" and ?w = "wIdx rg" and ?K = "length ws"
  have len: "length ?C = qlen" and r: "?r < qlen" and w: "?w \<le> qlen"
    using assms(1) by (simp_all add: wf_player_def)
  note hl = length_hand_cards [OF assms(1)]
  show ?thesis
  proof (cases "?r \<le> ?w")
    case le: True
    then have hc: "hand_cards rg = drop ?r (take ?w ?C)"
      by (simp add: hand_cards_def drop_take)
    have lhc: "length (drop ?r (take ?w ?C)) = ?w - ?r"
      using len w by simp
    show ?thesis
    proof (cases "qlen < ?w + ?K")
      case wrap: True
      let ?w' = "?w + ?K - qlen" and ?n = "qlen - ?w"
      have K: "?K \<le> qlen"
        using assms(2) by simp
      have w': "?w' < ?r"
        using assms(2) hl le wrap by simp
      let ?C' = "drop ?n ws @ drop ?w' (take ?w ?C) @ take ?n ws"
      have acc: "Accept rg ws = Inr (rg\<lparr>cards := ?C', wIdx := ?w'\<rparr>)"
        using Accept_wrap [OF len w wrap K] .
      have l1: "length (drop ?n ws) = ?w'"
        using wrap w by simp
      have tk: "take ?w' ?C' = drop ?n ws"
        using l1 by simp
      have "drop ?r ?C' = drop (?r - ?w') (drop ?w' (take ?w ?C) @ take ?n ws)"
        using l1 w' by simp
      also have "\<dots> = drop (?r - ?w') (drop ?w' (take ?w ?C)) @ take ?n ws"
        using le w' len w by simp
      also have "drop (?r - ?w') (drop ?w' (take ?w ?C)) = drop ?r (take ?w ?C)"
        using w' by simp
      finally have dr: "drop ?r ?C' = drop ?r (take ?w ?C) @ take ?n ws" .
      have "hand_cards (rg\<lparr>cards := ?C', wIdx := ?w'\<rparr>) = drop ?r ?C' @ take ?w' ?C'"
        using w' by (simp add: hand_cards_def)
      also have "\<dots> = hand_cards rg @ ws"
        by (simp only: dr tk hc append_assoc append_take_drop_id)
      finally have h: "hand_cards (rg\<lparr>cards := ?C', wIdx := ?w'\<rparr>) = hand_cards rg @ ws" .
      have "length ?C' = qlen"
        using wrap w len K by simp
      moreover have "?w' \<le> qlen"
        using w' r by simp
      ultimately have "wf_player (rg\<lparr>cards := ?C', wIdx := ?w'\<rparr>)"
        using r by (intro wf_player_update)
      then show ?thesis
        using acc h wrap by simp
    next
      case nowrap: False
      let ?C' = "take ?w ?C @ ws @ drop (?w + ?K) ?C"
      have acc: "Accept rg ws = Inr (rg\<lparr>cards := ?C', wIdx := ?w + ?K\<rparr>)"
        using Accept_nowrap [OF len] nowrap by simp
      have "drop ?r ?C' = drop ?r (take ?w ?C) @ ws @ drop (?w + ?K) ?C"
        using le len w by simp
      then have "take (?w + ?K - ?r) (drop ?r ?C') = drop ?r (take ?w ?C) @ ws"
        using lhc le by simp
      then have h: "hand_cards (rg\<lparr>cards := ?C', wIdx := ?w + ?K\<rparr>) = hand_cards rg @ ws"
        using le hc by (simp add: hand_cards_def)
      have "length ?C' = qlen"
        using nowrap w len by simp
      moreover have "?w + ?K \<le> qlen"
        using nowrap by simp
      ultimately have "wf_player (rg\<lparr>cards := ?C', wIdx := ?w + ?K\<rparr>)"
        using r by (intro wf_player_update)
      then show ?thesis
        using acc h nowrap by simp
    qed
  next
    case gt: False
    then have hc: "hand_cards rg = drop ?r ?C @ take ?w ?C"
      by (simp add: hand_cards_def)
    have lt: "?w + ?K < ?r"
      using assms(2) hl gt by simp
    then have nowrap: "?w + ?K \<le> qlen"
      using r by simp
    let ?C' = "take ?w ?C @ ws @ drop (?w + ?K) ?C"
    have acc: "Accept rg ws = Inr (rg\<lparr>cards := ?C', wIdx := ?w + ?K\<rparr>)"
      using Accept_nowrap [OF len nowrap] .
    have l1: "length (take ?w ?C) = ?w"
      using len w by simp
    have "drop ?r ?C' = drop (?r - ?w - ?K) (drop (?w + ?K) ?C)"
      using lt l1 by simp
    also have "\<dots> = drop ?r ?C"
      using lt by simp
    finally have dr: "drop ?r ?C' = drop ?r ?C" .
    have tk: "take (?w + ?K) ?C' = take ?w ?C @ ws"
      using l1 by simp
    have "hand_cards (rg\<lparr>cards := ?C', wIdx := ?w + ?K\<rparr>) = drop ?r ?C' @ take (?w + ?K) ?C'"
      using lt by (simp add: hand_cards_def)
    then have h: "hand_cards (rg\<lparr>cards := ?C', wIdx := ?w + ?K\<rparr>) = hand_cards rg @ ws"
      by (simp only: dr tk hc append_assoc)
    have "length ?C' = qlen"
      using nowrap w len by simp
    then have "wf_player (rg\<lparr>cards := ?C', wIdx := ?w + ?K\<rparr>)"
      using r nowrap by (intro wf_player_update)
    then show ?thesis
      using acc h nowrap by simp
  qed
qed

lemma DrawCard_eq:
  assumes "wf_player rg"
  shows "fst (DrawCard rg) = (if hand_cards rg = [] then 0 else hd (hand_cards rg))"
  using fst_DrawCard_hand [OF assms] by (cases "hand_cards rg") simp_all

lemma draw_n_Suc:
  "draw_n (Suc n) rg =
     (fst (DrawCard rg) # fst (draw_n n (snd (DrawCard rg))), snd (draw_n n (snd (DrawCard rg))))"
  by (simp split: prod.splits)

text \<open>Draws that stay within the cards held return them in order.\<close>

lemma draw_n_take:
  "wf_player rg \<Longrightarrow> n \<le> length (hand_cards rg) \<Longrightarrow> fst (draw_n n rg) = take n (hand_cards rg)"
proof (induction n arbitrary: rg)
  case 0
  then show ?case by simp
next
  case (Suc n)
  then obtain c cs where hc: "hand_cards rg = c # cs"
    by (cases "hand_cards rg") auto
  have c: "fst (DrawCard rg) = c"
    using fst_DrawCard_hand [OF Suc.prems(1)] hc by simp
  show ?case
  proof (cases "rIdx rg = qlen - 1 \<and> wIdx rg = qlen")
    case True
    then have "length (hand_cards rg) = 1"
      using length_hand_cards [OF Suc.prems(1)] by (simp add: qlen_def)
    then have "n = 0" "cs = []"
      using Suc.prems(2) hc by simp_all
    then show ?thesis
      using c hc by (simp add: draw_n_Suc del: draw_n.simps(2))
  next
    case False
    from snd_DrawCard_hand [OF Suc.prems(1) False]
    have tl: "hand_cards (snd (DrawCard rg)) = cs" and wf: "wf_player (snd (DrawCard rg))"
      using hc by simp_all
    have "fst (draw_n n (snd (DrawCard rg))) = take n cs"
      using Suc.IH [OF wf] Suc.prems(2) hc tl by simp
    then show ?thesis
      using c hc by (simp add: draw_n_Suc del: draw_n.simps(2))
  qed
qed

text \<open>With the write index below \<open>qlen\<close>, any number of draws follows the queue.\<close>

lemma draw_n_queue:
  "wf_player rg \<Longrightarrow> wIdx rg < qlen \<Longrightarrow>
     fst (draw_n n rg) = take n (hand_cards rg) @ replicate (n - length (hand_cards rg)) 0
     \<and> hand_cards (snd (draw_n n rg)) = drop n (hand_cards rg)
     \<and> wf_player (snd (draw_n n rg)) \<and> wIdx (snd (draw_n n rg)) = wIdx rg"
proof (induction n arbitrary: rg)
  case 0
  then show ?case by simp
next
  case (Suc n)
  have ns: "\<not> (rIdx rg = qlen - 1 \<and> wIdx rg = qlen)"
    using Suc.prems(2) by simp
  from snd_DrawCard_hand [OF Suc.prems(1) ns]
  have tl: "hand_cards (snd (DrawCard rg)) = tl (hand_cards rg)"
    and wf: "wf_player (snd (DrawCard rg))"
    by simp_all
  have w: "wIdx (snd (DrawCard rg)) < qlen"
    using Suc.prems(2) by (simp add: wIdx_DrawCard)
  note IH = Suc.IH [OF wf w]
  have c: "fst (DrawCard rg) = (if hand_cards rg = [] then 0 else hd (hand_cards rg))"
    by (rule DrawCard_eq [OF Suc.prems(1)])
  show ?case
  proof (cases "hand_cards rg")
    case Nil
    then show ?thesis
      using IH tl c by (simp add: wIdx_DrawCard draw_n_Suc del: draw_n.simps(2))
  next
    case (Cons a as)
    then show ?thesis
      using IH tl c by (simp add: wIdx_DrawCard draw_n_Suc del: draw_n.simps(2))
  qed
qed


section \<open>Reset, DrawCard and Alive\<close>

text \<open>
  Claim C5, as stated, fails for a sequence of exactly 64 cards: the 64 draws return the
  cards, but the read index is back at 0 and the write index is 64, so the hand is still
  alive and the next draw returns the first card again.
\<close>

theorem Reset_full_counterexample:
  "length full_hand = 64
   \<and> fst (draw_n 64 (Reset new_player full_hand)) = full_hand
   \<and> Alive (snd (draw_n 64 (Reset new_player full_hand)))
   \<and> fst (DrawCard (snd (draw_n 64 (Reset new_player full_hand)))) = 1"
  by code_simp

text \<open>
  Claim C5, amended: for every card sequence of length at most 63, after \<open>Reset\<close> the hand
  is alive iff the sequence is non-empty; it stays alive before each of the first
  \<open>len(cards)\<close> draws, which return the cards in order; then it is not alive, and every
  further draw returns 0.
\<close>

theorem Reset_then_draw:
  assumes "length (cards rg) = qlen" "length cs < qlen"
  shows "(Alive (Reset rg cs) \<longleftrightarrow> cs \<noteq> [])
     \<and> (\<forall>k<length cs. Alive (snd (draw_n k (Reset rg cs))))
     \<and> fst (draw_n (length cs) (Reset rg cs)) = cs
     \<and> \<not> Alive (snd (draw_n (length cs) (Reset rg cs)))
     \<and> (\<forall>m. fst (draw_n (length cs + m) (Reset rg cs)) = cs @ replicate m 0)"
proof -
  note R = Reset_hand [OF assms(1), of cs]
  have wf: "wf_player (Reset rg cs)" and hc: "hand_cards (Reset rg cs) = cs"
    and w: "wIdx (Reset rg cs) < qlen"
    using R assms(2) by simp_all
  note Q = draw_n_queue [OF wf w]
  have alive: "Alive (snd (draw_n k (Reset rg cs))) \<longleftrightarrow> k < length cs" for k
    using Q [of k] Alive_hand_cards [of "snd (draw_n k (Reset rg cs))"] hc by auto
  have "Alive (Reset rg cs) \<longleftrightarrow> cs \<noteq> []"
    using Alive_hand_cards [OF wf] hc by simp
  moreover have "fst (draw_n (length cs + m) (Reset rg cs)) = cs @ replicate m 0" for m
    using Q [of "length cs + m"] hc by simp
  moreover from this [of 0] have "fst (draw_n (length cs) (Reset rg cs)) = cs"
    by simp
  ultimately show ?thesis
    using alive by simp
qed

theorem Reset_then_draw_witness:
  "Alive (Reset new_player [7, 9])
   \<and> fst (draw_n (length [7, 9 :: u8]) (Reset new_player [7, 9])) = [7, 9]
   \<and> \<not> Alive (snd (draw_n (length [7, 9 :: u8]) (Reset new_player [7, 9])))
   \<and> fst (draw_n (length [7, 9 :: u8] + 3) (Reset new_player [7, 9])) = [7, 9] @ replicate 3 0"
proof -
  have h1: "length (cards new_player) = qlen"
    by (simp add: new_player_def)
  have h2: "length [7, 9 :: u8] < qlen"
    by (simp add: qlen_def)
  show ?thesis
    using Reset_then_draw [OF h1 h2] by blast
qed

section \<open>Accept\<close>

lemma Accept_positions:
  assumes "wf_player rg" "length ws \<le> qlen"
  shows "\<exists>rg'. Accept rg ws = Inr rg' \<and> rIdx rg' = rIdx rg
          \<and> wIdx rg' mod qlen = (wIdx rg + length ws) mod qlen
          \<and> (\<forall>i<length ws. cards rg' ! ((wIdx rg + i) mod qlen) = ws ! i)"
proof -
  let ?C = "cards rg" and ?w = "wIdx rg" and ?K = "length ws"
  have len: "length ?C = qlen" and w: "?w \<le> qlen"
    using assms(1) by (simp_all add: wf_player_def)
  have q: "0 < qlen"
    by (simp add: qlen_def)
  show ?thesis
  proof (cases "qlen < ?w + ?K")
    case wrap: True
    let ?n = "qlen - ?w" and ?w' = "?w + ?K - qlen"
    let ?C' = "drop ?n ws @ drop ?w' (take ?w ?C) @ take ?n ws"
    have acc: "Accept rg ws = Inr (rg\<lparr>cards := ?C', wIdx := ?w'\<rparr>)"
      using Accept_wrap [OF len w wrap assms(2)] .
    have l1: "length (drop ?n ws) = ?w'"
      using wrap w by simp
    have l2: "length (drop ?w' (take ?w ?C)) = ?w - ?w'"
      using len w by simp
    have w'w: "?w' \<le> ?w"
      using assms(2) by simp
    have pos: "?C' ! ((?w + i) mod qlen) = ws ! i" if i: "i < ?K" for i
    proof (cases "i < ?n")
      case True
      then have m: "(?w + i) mod qlen = ?w + i"
        by simp
      have idx: "?w + i = length (drop ?n ws) + (length (drop ?w' (take ?w ?C)) + i)"
        unfolding l1 l2 using w'w by simp
      have "?C' ! (length (drop ?n ws) + (length (drop ?w' (take ?w ?C)) + i)) = take ?n ws ! i"
        by (simp only: nth_append_length_plus)
      then have "?C' ! (?w + i) = take ?n ws ! i"
        by (subst idx)
      then show ?thesis
        using True m by simp
    next
      case False
      then have ge: "qlen \<le> ?w + i" and lt: "?w + i - qlen < qlen"
        using i assms(2) w by simp_all
      have m: "(?w + i) mod qlen = ?w + i - qlen"
        using ge lt by (simp add: le_mod_geq)
      have "?w + i - qlen < ?w'"
        using i ge by simp
      then have "?C' ! (?w + i - qlen) = drop ?n ws ! (?w + i - qlen)"
        unfolding l1 [symmetric] by (rule nth_append_left)
      also have "\<dots> = ws ! (?n + (?w + i - qlen))"
        using wrap by (intro nth_drop) simp
      also have "?n + (?w + i - qlen) = i"
        using ge w by simp
      finally show ?thesis
        using m by simp
    qed
    have "?w' mod qlen = (?w + ?K) mod qlen"
      using wrap by (simp add: le_mod_geq)
    then show ?thesis
      using acc pos by simp
  next
    case nowrap: False
    let ?C' = "take ?w ?C @ ws @ drop (?w + ?K) ?C"
    have acc: "Accept rg ws = Inr (rg\<lparr>cards := ?C', wIdx := ?w + ?K\<rparr>)"
      using Accept_nowrap [OF len] nowrap by simp
    have l1: "length (take ?w ?C) = ?w"
      using len w by simp
    have pos: "?C' ! ((?w + i) mod qlen) = ws ! i" if i: "i < ?K" for i
    proof -
      have "(?w + i) mod qlen = ?w + i"
        using i nowrap by simp
      moreover have "?C' ! (?w + i) = ws ! i"
        using l1 i by (simp add: nth_append)
      ultimately show ?thesis by simp
    qed
    show ?thesis
      using acc pos by simp
  qed
qed

text \<open>
  Claim C4, as stated, fails when the accepted cards fill the buffer to exactly 64 with
  the read index not at 0: a hand holding one card at index 1 that accepts 63 cards has
  its write index back at 1 and is not alive.
\<close>

theorem Accept_full_counterexample:
  "hand_cards (snd (DrawCard (Reset new_player [5, 6]))) = [6]
   \<and> length (take 63 full_hand) = 63
   \<and> (case Accept (snd (DrawCard (Reset new_player [5, 6]))) (take 63 full_hand) of
         Inl e \<Rightarrow> False
       | Inr rg \<Rightarrow> \<not> Alive rg \<and> fst (DrawCard rg) = 0)"
  by code_simp

text \<open>
  Claim C4, amended: for every \<open>Accept\<close> of at most 64 cards on a hand whose indices are
  within the array, the cards are written from the write index on, wrapping around the
  64 slots, and the write index advances by their number modulo 64; moreover, if the hand
  held M cards and accepts K cards with M + K at most 63, the hand is then alive unless
  M + K = 0, and the next M + K draws return the M cards followed by the K accepted
  cards in order.
\<close>

theorem Accept_appends:
  assumes "wf_player rg" "length ws \<le> qlen"
  shows "\<exists>rg'. Accept rg ws = Inr rg' \<and> rIdx rg' = rIdx rg
          \<and> wIdx rg' mod qlen = (wIdx rg + length ws) mod qlen
          \<and> (\<forall>i<length ws. cards rg' ! ((wIdx rg + i) mod qlen) = ws ! i)
          \<and> (length (hand_cards rg) + length ws < qlen \<longrightarrow>
               (hand_cards rg @ ws \<noteq> [] \<longrightarrow> Alive rg')
               \<and> fst (draw_n (length (hand_cards rg) + length ws) rg') = hand_cards rg @ ws)"
proof -
  from Accept_positions [OF assms] obtain rg' where
    acc: "Accept rg ws = Inr rg'" and rest: "rIdx rg' = rIdx rg"
      "wIdx rg' mod qlen = (wIdx rg + length ws) mod qlen"
      "\<forall>i<length ws. cards rg' ! ((wIdx rg + i) mod qlen) = ws ! i"
    by blast
  have "(hand_cards rg @ ws \<noteq> [] \<longrightarrow> Alive rg')
        \<and> fst (draw_n (length (hand_cards rg) + length ws) rg') = hand_cards rg @ ws"
    if fits: "length (hand_cards rg) + length ws < qlen"
  proof -
    from Accept_hand [OF assms(1) fits] acc
    have hc: "hand_cards rg' = hand_cards rg @ ws" and wf: "wf_player rg'"
      by simp_all
    have "fst (draw_n (length (hand_cards rg) + length ws) rg') = hand_cards rg @ ws"
      using draw_n_take [OF wf, of "length (hand_cards rg) + length ws"] hc by simp
    then show ?thesis
      using Alive_hand_cards [OF wf] hc by simp
  qed
  then show ?thesis
    using acc rest by blast
qed

theorem Accept_appends_witness:
  "\<exists>rg'. Accept (Reset new_player [7, 9]) [4, 8] = Inr rg'
      \<and> wIdx rg' mod qlen = (wIdx (Reset new_player [7, 9]) + length [4, 8 :: u8]) mod qlen
      \<and> Alive rg'
      \<and> fst (draw_n (length (hand_cards (Reset new_player [7, 9])) + length [4, 8 :: u8]) rg')
          = hand_cards (Reset new_player [7, 9]) @ [4, 8]"
proof -
  have h1: "wf_player (Reset new_player [7, 9])"
    by code_simp
  have h2: "length [4, 8 :: u8] \<le> qlen"
    by (simp add: qlen_def)
  have h3: "length (hand_cards (Reset new_player [7, 9])) + length [4, 8 :: u8] < qlen"
    by code_simp
  show ?thesis
    using Accept_appends [OF h1 h2] h3 by auto
qed

section \<open>Sequences of hand operations\<close>

lemma length_hand_cards_mod:
  assumes "wf_player rg" "length (hand_cards rg) < qlen"
  shows "int (length (hand_cards rg)) = (int (wIdx rg) - int (rIdx rg)) mod int qlen"
proof (cases "rIdx rg \<le> wIdx rg")
  case True
  then have "length (hand_cards rg) = wIdx rg - rIdx rg"
    using length_hand_cards [OF assms(1)] by simp
  then show ?thesis
    using True assms(2) by (simp add: of_nat_diff)
next
  case False
  then have l: "length (hand_cards rg) = qlen - rIdx rg + wIdx rg"
    using length_hand_cards [OF assms(1)] by simp
  have r: "rIdx rg < qlen"
    using assms(1) by (simp add: wf_player_def)
  have "(int (wIdx rg) - int (rIdx rg)) mod int qlen
      = (int (wIdx rg) - int (rIdx rg) + int qlen) mod int qlen"
    by simp
  also have "\<dots> = int (wIdx rg) - int (rIdx rg) + int qlen"
    using False r by (intro mod_pos_pos_trivial) simp_all
  finally show ?thesis
    using l r by simp
qed

lemma run_ops_queue:
  "wf_player rg \<Longrightarrow> length (hand_cards rg) < qlen \<Longrightarrow> within_capacity ops rg \<Longrightarrow>
     \<exists>rg'. run_ops ops rg = Inr rg' \<and> wf_player rg'
        \<and> hand_cards rg' = spec_queue ops (hand_cards rg) \<and> length (hand_cards rg') < qlen"
proof (induction ops arbitrary: rg)
  case Nil
  then show ?case by simp
next
  case (Cons x xs)
  show ?case
  proof (cases x)
    case (OpReset cs)
    have len: "length (cards rg) = qlen"
      using Cons.prems(1) by (simp add: wf_player_def)
    have cs: "length cs < qlen" and rest: "within_capacity xs (Reset rg cs)"
      using Cons.prems(3) OpReset by simp_all
    note R = Reset_hand [OF len, of cs]
    have hc: "hand_cards (Reset rg cs) = take qlen cs"
      using R by simp
    then have "length (hand_cards (Reset rg cs)) < qlen"
      using cs by simp
    from Cons.IH [OF _ this rest] R show ?thesis
      using OpReset hc by simp
  next
    case OpDrawCard
    have ns: "\<not> (rIdx rg = qlen - 1 \<and> wIdx rg = qlen)"
      and rest: "within_capacity xs (snd (DrawCard rg))"
      using Cons.prems(3) OpDrawCard by simp_all
    from snd_DrawCard_hand [OF Cons.prems(1) ns]
    have tl: "hand_cards (snd (DrawCard rg)) = tl (hand_cards rg)"
      and wf: "wf_player (snd (DrawCard rg))"
      by simp_all
    have "length (hand_cards (snd (DrawCard rg))) < qlen"
      using tl Cons.prems(2) by simp
    from Cons.IH [OF wf this rest] show ?thesis
      using OpDrawCard tl by simp
  next
    case (OpAccept ws)
    have fits: "length (hand_cards rg) + length ws < qlen"
      using Cons.prems(3) OpAccept by simp
    from Accept_hand [OF Cons.prems(1) fits] obtain rg1 where
      acc: "Accept rg ws = Inr rg1" and hc: "hand_cards rg1 = hand_cards rg @ ws"
      and wf: "wf_player rg1"
      by blast
    have rest: "within_capacity xs rg1"
      using Cons.prems(3) OpAccept acc by simp
    have "length (hand_cards rg1) < qlen"
      using hc fits by simp
    from Cons.IH [OF wf this rest] show ?thesis
      using OpAccept acc hc by simp
  qed
qed

text \<open>
  Claim C3, as stated, fails in two ways. A hand reset to 64 cards holds 64 cards, within
  the capacity, while (write index - read index) mod 64 is 0. And on a sequence that never
  holds more than 32 cards, 32 cards accepted and drawn twice, the write index rests at 64
  and the read index has wrapped to 0, so the empty hand is alive.
\<close>

theorem hand_ops_counterexample:
  "length (spec_queue [OpReset full_hand] []) = 64
   \<and> (case run_ops [OpReset full_hand] new_player of
         Inl e \<Rightarrow> False
       | Inr rg \<Rightarrow> (int (wIdx rg) - int (rIdx rg)) mod int qlen = 0)
   \<and> spec_queue slip_ops [] = []
   \<and> (case run_ops slip_ops new_player of
         Inl e \<Rightarrow> False
       | Inr rg \<Rightarrow> Alive rg \<and> rIdx rg = 0 \<and> wIdx rg = 64)"
  by code_simp

text \<open>
  Claim C3, amended: for every sequence of \<open>Reset\<close>, \<open>DrawCard\<close> and \<open>Accept\<close> operations on
  a new hand that keeps the number of cards held at 63 or less and never draws at read
  index 63 while the write index rests at 64, the operations do not panic, the cards
  between the two indices are the queue of the cards held, their number equals
  (write index - read index) mod 64, and \<open>Alive\<close> holds exactly when the hand is non-empty.
\<close>

theorem hand_ops_invariant:
  assumes "within_capacity ops new_player"
  shows "\<exists>rg. run_ops ops new_player = Inr rg
           \<and> hand_cards rg = spec_queue ops []
           \<and> int (length (spec_queue ops [])) = (int (wIdx rg) - int (rIdx rg)) mod int qlen
           \<and> length (spec_queue ops []) \<le> qlen
           \<and> (Alive rg \<longleftrightarrow> spec_queue ops [] \<noteq> [])"
proof -
  have wf: "wf_player new_player" and hc: "hand_cards new_player = []"
    by (simp_all add: wf_player_def new_player_def hand_cards_def qlen_def)
  then have l: "length (hand_cards new_player) < qlen"
    by (simp add: qlen_def)
  from run_ops_queue [OF wf l assms] obtain rg where
    run: "run_ops ops new_player = Inr rg" and wf': "wf_player rg"
    and q: "hand_cards rg = spec_queue ops []" and l': "length (hand_cards rg) < qlen"
    using hc by auto
  show ?thesis
    using run q l' length_hand_cards_mod [OF wf' l'] Alive_hand_cards [OF wf'] by auto
qed

theorem hand_ops_invariant_witness:
  "\<exists>rg. run_ops [OpReset [7, 9], OpDrawCard, OpAccept [4]] new_player = Inr rg
      \<and> hand_cards rg = spec_queue [OpReset [7, 9], OpDrawCard, OpAccept [4]] []
      \<and> int (length (spec_queue [OpReset [7, 9], OpDrawCard, OpAccept [4]] []))
          = (int (wIdx rg) - int (rIdx rg)) mod int qlen
      \<and> Alive rg"
proof -
  have h: "within_capacity [OpReset [7, 9], OpDrawCard, OpAccept [4]] new_player"
    by code_simp
  have ne: "spec_queue [OpReset [7, 9], OpDrawCard, OpAccept [4]] [] \<noteq> []"
    by code_simp
  show ?thesis
    using hand_ops_invariant [OF h] ne by auto
qed

section \<open>Workers and the aggregate\<close>

lemma playGame_indicator:
  "playGame fuel int32n p1 p2 rnd = Some (Inr (r, q1, q2, rnd')) \<Longrightarrow> r = 0 \<or> r = 1"
proof (induction fuel arbitrary: p1 p2 rnd)
  case 0
  then show ?case by (auto split: if_splits)
next
  case (Suc fuel)
  then show ?case
    by (auto split: if_splits sum.splits prod.splits)
qed

lemma worker_games_results:
  "worker_games fuel g n deck p1 p2 rnd = Some (Inr rs) \<Longrightarrow>
     length rs = n \<and> set rs \<subseteq> {0, 1}"
proof (induction n arbitrary: deck p1 p2 rnd rs)
  case 0
  then show ?case by simp
next
  case (Suc n)
  from Suc.prems obtain deck' rnd1 where
    sh: "shuffle g deck rnd = Inr (deck', rnd1)"
    by (auto split: sum.splits)
  from Suc.prems sh obtain res p1' p2' rnd2 where
    game: "playGame fuel g (Reset p1 (take 26 deck')) (Reset p2 (drop 26 deck')) rnd1
             = Some (Inr (res, p1', p2', rnd2))"
    by (auto split: option.splits sum.splits)
  from Suc.prems sh game obtain rs' where
    rest: "worker_games fuel g n deck' p1' p2' rnd2 = Some (Inr rs')" and rs: "rs = res # rs'"
    by (auto split: option.splits sum.splits)
  have "res = 0 \<or> res = 1"
    using playGame_indicator [OF game] .
  then show ?case
    using Suc.IH [OF rest] rs by auto
qed

text \<open>The loop of \<open>playN\<close> plays the games that remain and adds their results to its count.\<close>

lemma playN_loop_games:
  "i \<le> n \<Longrightarrow>
   playN_loop fuel g n i deck p1 p2 wins rnd =
     map_option (map_sum id (\<lambda>rs. (n, wins + sum_list rs)))
       (worker_games fuel g (nat (n - i)) deck p1 p2 rnd)"
proof (induction fuel g n i deck p1 p2 wins rnd rule: playN_loop.induct)
  case (1 fuel g n i deck p1 p2 wins rnd)
  show ?case
  proof (cases "i < n")
    case False
    then have "i = n"
      using "1.prems" by simp
    then show ?thesis
      by (subst playN_loop.simps) simp
  next
    case True
    then have n: "nat (n - i) = Suc (nat (n - (i + 1)))"
      by simp
    show ?thesis
    proof (cases "shuffle g deck rnd")
      case (Inl e)
      then show ?thesis
        using True by (subst playN_loop.simps) (simp add: n)
    next
      case (Inr x)
      obtain deck' rnd1 where x: "x = (deck', rnd1)"
        by (cases x)
      note sh = Inr [unfolded x]
      show ?thesis
      proof (cases "playGame fuel g (Reset p1 (take 26 deck')) (Reset p2 (drop 26 deck')) rnd1")
        case None
        then show ?thesis
          using True sh by (subst playN_loop.simps) (simp add: n)
      next
        case (Some y)
        show ?thesis
        proof (cases y)
          case (Inl e)
          then show ?thesis
            using True sh Some by (subst playN_loop.simps) (simp add: n)
        next
          case (Inr z)
          obtain res p1' p2' rnd2 where z: "z = (res, p1', p2', rnd2)"
            by (cases z)
          note game = Some [unfolded Inr z]
          have le: "i + 1 \<le> n"
            using True by simp
          note IH = "1.IH" [OF True sh refl game refl refl refl refl le]
          show ?thesis
            using True sh game IH
            by (subst playN_loop.simps) (simp add: n split: option.splits sum.splits)
        qed
      qed
    qed
  qed
qed

lemma gather_map_sum:
  "gather (map (\<lambda>x. map_option (map_sum id f) (h x)) xs)
     = map_option (map_sum id (map f)) (gather (map h xs))"
proof (induction xs)
  case Nil
  then show ?case by simp
next
  case (Cons x xs)
  show ?case
  proof (cases "h x")
    case None
    then show ?thesis
      using Cons by (cases "gather (map h xs)") (auto split: sum.splits)
  next
    case (Some y)
    then show ?thesis
      using Cons by (cases y; cases "gather (map h xs)") (auto split: sum.splits)
  qed
qed

lemma gather_results:
  "gather (map h xs) = Some (Inr as) \<Longrightarrow> length as = length xs \<and> (\<forall>i<length xs. h (xs ! i) = Some (Inr (as ! i)))"
proof (induction xs arbitrary: as)
  case Nil
  then show ?case by simp
next
  case (Cons x xs)
  from Cons.prems obtain a as' where
    a: "h x = Some (Inr a)" and rest: "gather (map h xs) = Some (Inr as')" and as: "as = a # as'"
    by (auto split: option.splits sum.splits)
  from Cons.IH [OF rest] have IH: "length as' = length xs"
    "\<forall>i<length xs. h (xs ! i) = Some (Inr (as' ! i))"
    by simp_all
  show ?case
  proof (intro conjI allI impI)
    show "length as = length (x # xs)"
      using as IH(1) by simp
  next
    fix i assume "i < length (x # xs)"
    then show "h ((x # xs) ! i) = Some (Inr (as ! i))"
      using a as IH(2) by (cases i) simp_all
  qed
qed

text \<open>
  Claim C8, as stated for every games count and every positive workers count, fails for
  a negative games count and for a workers count that the channel cannot be made for.
  With \<open>games = -10\<close> and 3 workers the quotient is \<open>-3\<close> and the reported total of
  games is \<open>-9\<close>, while the loop of every worker ends at once: each worker has played 0
  games. With a channel limit of 1024, 1025 workers end in the panic of \<open>make\<close>.
\<close>

theorem main_go_counts_counterexample:
  "main_go 0 gen_last (\<lambda>i. ()) 1024 (- 10) 3 = Some (Inr (0, - 9, [(0, 0), (0, 0), (0, 0)]))
   \<and> main_go 0 gen_last (\<lambda>i. ()) 1024 10 1025 = Some (Inl ChanSizeOutOfRange)"
  by code_simp

text \<open>
  Claim C8, amended: for every games count of 0 or more and every positive workers count
  that the channel can be made for, \<open>main\<close> does what the workers of the specification
  do together. It reports exactly when every game of every worker returns; a panic in a
  game is a panic of \<open>main\<close>, and without a panic a game that never ends leaves \<open>main\<close>
  waiting. When it reports, there is one list of game results per worker, each worker has
  played exactly \<open>games / workers\<close> games (truncating division), each with result 0 or 1,
  the games played add up to \<open>(games / workers) * workers\<close>, which is the reported total
  of games, and the reported aggregate is the sum over the workers of their win counts,
  the win count of a worker being the sum of the results of its games.
\<close>

theorem main_go_counts:
  assumes "0 \<le> nGames" "0 < nProcs" "nProcs \<le> chanCap"
  shows "main_go fuel int32n seed chanCap nGames nProcs =
           (case gather (map (\<lambda>i. worker_games fuel int32n (nat (nGames div nProcs))
                                     makeDeck new_player new_player (seed i)) [0..<nat nProcs]) of
              None \<Rightarrow> None
            | Some (Inl e) \<Rightarrow> Some (Inl e)
            | Some (Inr games) \<Rightarrow>
                Some (Inr (sum_list (map sum_list games), (nGames div nProcs) * nProcs,
                           map (\<lambda>rs. (nGames div nProcs, sum_list rs)) games)))
     \<and> (\<forall>games. gather (map (\<lambda>i. worker_games fuel int32n (nat (nGames div nProcs))
                                     makeDeck new_player new_player (seed i)) [0..<nat nProcs])
                  = Some (Inr games) \<longrightarrow>
           int (length games) = nProcs
           \<and> (\<forall>rs\<in>set games. int (length rs) = nGames div nProcs \<and> set rs \<subseteq> {0, 1})
           \<and> int (length (concat games)) = (nGames div nProcs) * nProcs)"
proof -
  have sd: "nGames sdiv nProcs = nGames div nProcs"
    using assms(1,2) by (cases "nGames = 0") (simp_all add: signed_divide_int_def)
  let ?g = "nGames div nProcs"
  let ?w = "\<lambda>i. worker_games fuel int32n (nat ?g) makeDeck new_player new_player (seed i)"
  have g0: "0 \<le> ?g"
    using assms(1,2) by (simp add: pos_imp_zdiv_nonneg_iff)
  have worker: "playN fuel int32n ?g (seed i)
                  = map_option (map_sum id (\<lambda>rs. (?g, sum_list rs))) (?w i)" for i
    using playN_loop_games [OF g0, of fuel int32n makeDeck new_player new_player 0 "seed i"]
    by (simp add: playN_def)
  have ga: "gather (map (\<lambda>i. playN fuel int32n ?g (seed i)) [0..<nat nProcs])
              = map_option (map_sum id (map (\<lambda>rs. (?g, sum_list rs)))) (gather (map ?w [0..<nat nProcs]))"
    by (simp only: worker gather_map_sum)
  have A: "main_go fuel int32n seed chanCap nGames nProcs =
           (case gather (map ?w [0..<nat nProcs]) of
              None \<Rightarrow> None
            | Some (Inl e) \<Rightarrow> Some (Inl e)
            | Some (Inr games) \<Rightarrow>
                Some (Inr (sum_list (map sum_list games), ?g * nProcs,
                           map (\<lambda>rs. (?g, sum_list rs)) games)))"
    using assms(2,3) sd ga
    by (simp add: main_go_def Let_def comp_def split: option.splits sum.splits)
  have B: "int (length games) = nProcs
           \<and> (\<forall>rs\<in>set games. int (length rs) = ?g \<and> set rs \<subseteq> {0, 1})
           \<and> int (length (concat games)) = ?g * nProcs"
    if G: "gather (map ?w [0..<nat nProcs]) = Some (Inr games)" for games
  proof -
    from gather_results [OF G]
    have len: "length games = nat nProcs"
      and each: "\<forall>i<nat nProcs. ?w i = Some (Inr (games ! i))"
      by simp_all
    have one: "length rs = nat ?g \<and> set rs \<subseteq> {0, 1}" if "rs \<in> set games" for rs
    proof -
      from that obtain i where i: "i < length games" "games ! i = rs"
        by (auto simp: in_set_conv_nth)
      then have "?w i = Some (Inr rs)"
        using each len by auto
      from worker_games_results [OF this] show ?thesis .
    qed
    then have "map length games = replicate (length games) (nat ?g)"
      by (simp add: map_replicate_const [symmetric])
    then have "length (concat games) = nat nProcs * nat ?g"
      using len by (simp add: length_concat sum_list_replicate)
    then have "int (length (concat games)) = ?g * nProcs"
      using g0 assms(2) by (simp add: mult.commute)
    then show ?thesis
      using len one g0 assms(2) by auto
  qed
  show ?thesis
    using A B by blast
qed

theorem main_go_counts_witness:
  "main_go 26 gen_script (\<lambda>i. sweep_script) 1024 10 3
     = Some (Inr (9, 9, [(3, 3), (3, 3), (3, 3)]))
   \<and> gather (map (\<lambda>i. worker_games 26 gen_script 3 makeDeck new_player new_player sweep_script)
               [0..<3])
       = Some (Inr [[1, 1, 1], [1, 1, 1], [1, 1, 1]])
   \<and> int (length (concat ([[1, 1, 1], [1, 1, 1], [1, 1, 1]] :: int list list))) = (10 div 3) * 3"
proof -
  have W: "worker_games 26 gen_script 3 makeDeck new_player new_player sweep_script
             = Some (Inr [1, 1, 1])"
    by code_simp
  have up: "[0..<3] = [0, 1, 2]"
    by (simp add: upt_rec)
  have G: "gather (map (\<lambda>i. worker_games 26 gen_script 3 makeDeck new_player new_player sweep_script)
               [0..<3]) = Some (Inr [[1, 1, 1], [1, 1, 1], [1, 1, 1]])"
    by (simp add: W up)
  have h: "(0::int) \<le> 10" "(0::int) < 3" "(3::int) \<le> 1024"
    by simp_all
  have d: "nat (10 div 3) = 3" "(10::int) div 3 = 3" "nat 3 = 3"
    by simp_all
  note R = main_go_counts [OF h, of 26 gen_script "\<lambda>i. sweep_script"]
  have "main_go 26 gen_script (\<lambda>i. sweep_script) 1024 10 3
     = Some (Inr (9, 9, [(3, 3), (3, 3), (3, 3)]))"
    using R [THEN conjunct1] G by (simp add: d)
  moreover have "int (length (concat ([[1, 1, 1], [1, 1, 1], [1, 1, 1]] :: int list list)))
                   = (10 div 3) * 3"
    using R [THEN conjunct2] G by (simp only: d)
  ultimately show ?thesis
    using G by blast
qed

section \<open>Termination of the trick loop\<close>

lemma tricks_add:
  "tricks (m + n) g p1 p2 r =
     (case tricks m g p1 p2 r of Inl e \<Rightarrow> Inl e | Inr (a, b, r') \<Rightarrow> tricks n g a b r')"
proof (induction m arbitrary: p1 p2 r)
  case 0
  then show ?case by simp
next
  case (Suc m)
  show ?case
  proof (cases "Alive p1 \<and> Alive p2")
    case True
    then show ?thesis
      using Suc.IH by (auto split: sum.splits)
  next
    case False
    then show ?thesis
      by (cases n) auto
  qed
qed

lemma playGame_tricks:
  "playGame fuel g p1 p2 r =
     (case tricks fuel g p1 p2 r of
        Inl e \<Rightarrow> Some (Inl e)
      | Inr (a, b, r') \<Rightarrow>
          if Alive a \<and> Alive b then None else Some (Inr (if Alive b then 1 else 0, a, b, r')))"
proof (induction fuel arbitrary: p1 p2 r)
  case 0
  then show ?case by simp
next
  case (Suc fuel)
  then show ?case
    by (auto split: sum.splits)
qed

lemma all_alive_tricks:
  "all_alive n g p1 p2 r \<Longrightarrow> k < n \<Longrightarrow>
     \<exists>a b r'. tricks k g p1 p2 r = Inr (a, b, r') \<and> Alive a \<and> Alive b"
proof (induction n arbitrary: k p1 p2 r)
  case 0
  then show ?case by simp
next
  case (Suc n)
  show ?case
  proof (cases k)
    case 0
    then show ?thesis using Suc.prems(1) by simp
  next
    case (Suc j)
    from Suc.prems(1) obtain a b r' where
      tr: "trick g p1 p2 r = Inr (a, b, r')" and rest: "all_alive n g a b r'"
      and al: "Alive p1" "Alive p2"
      by (auto split: sum.splits)
    have "j < n"
      using Suc.prems(2) Suc by simp
    from Suc.IH [OF rest this] show ?thesis
      using tr al Suc by simp
  qed
qed

lemma never_ends:
  assumes per: "tricks (m + l) g p1 p2 r = tricks m g p1 p2 r" and l: "0 < l"
    and al: "all_alive (m + l) g p1 p2 r"
  shows "playGame fuel g p1 p2 r = None"
proof -
  have shift: "tricks (m + l + j) g p1 p2 r = tricks (m + j) g p1 p2 r" for j
    using tricks_add [of "m + l" j g p1 p2 r] tricks_add [of m j g p1 p2 r] per by simp
  have "\<exists>a b r'. tricks n g p1 p2 r = Inr (a, b, r') \<and> Alive a \<and> Alive b" for n
  proof (induction n rule: less_induct)
    case (less n)
    show ?case
    proof (cases "n < m + l")
      case True
      then show ?thesis by (rule all_alive_tricks [OF al])
    next
      case False
      then obtain j where n: "n = m + l + j"
        by (metis le_add_diff_inverse not_less)
      have "m + j < n"
        using n l by simp
      from less.IH [OF this] show ?thesis
        using shift [of j] n by simp
    qed
  qed
  from this [of fuel] show ?thesis
    by (auto simp: playGame_tricks)
qed

lemma rand_ok_gen_zero: "rand_ok gen_zero"
  by (simp add: rand_ok_def gen_zero_def)

text \<open>
  Claim C2, as stated, fails: with the hands [2, 3] and [3, 2] and a generator that always
  answers 0, hand 2 wins the first trick and hand 1 the second, which restores the two
  hands; after 62 tricks the arrays repeat with period 64 and no hand is ever empty.
\<close>

theorem playGame_runs_forever:
  "rand_ok gen_zero
   \<and> \<not> (\<exists>fuel res. playGame fuel gen_zero (Reset new_player [2, 3]) (Reset new_player [3, 2]) ()
                        = Some res)"
proof -
  have per: "tricks (62 + 64) gen_zero (Reset new_player [2, 3]) (Reset new_player [3, 2]) ()
             = tricks 62 gen_zero (Reset new_player [2, 3]) (Reset new_player [3, 2]) ()"
    by code_simp
  have al: "all_alive (62 + 64) gen_zero (Reset new_player [2, 3]) (Reset new_player [3, 2]) ()"
    by code_simp
  have "playGame fuel gen_zero (Reset new_player [2, 3]) (Reset new_player [3, 2]) () = None"
    for fuel
    by (rule never_ends [OF per _ al]) simp
  then show ?thesis
    using rand_ok_gen_zero by simp
qed

lemma war_length:
  "war p1 p2 c1 c2 wins = Inr (q1, q2, d1, d2, W) \<Longrightarrow>
     \<exists>k. length W = length wins + 4 * k \<and> (0 < k \<longrightarrow> length W \<le> qlen)"
proof (induction p1 p2 c1 c2 wins rule: war.induct)
  case (1 p1 p2 c1 c2 wins)
  show ?case
  proof (cases "c1 = c2 \<and> Alive p1")
    case True
    with "1.prems" have room: "\<not> qlen < length wins + 4"
      by (subst (asm) war.simps) (simp split: if_splits)
    obtain a b e1 e2 W' where round: "war_round p1 p2 wins = (a, b, e1, e2, W')"
      by (metis prod_cases5)
    have rec: "war a b e1 e2 W' = Inr (q1, q2, d1, d2, W)"
      using "1.prems" True room round by (subst (asm) war.simps) simp
    have lw: "length W' = length wins + 4"
      using round by (auto simp: war_round_def split: prod.splits)
    from "1.IH" [OF True room, of a "(b, e1, e2, W')" b "(e1, e2, W')" e1 "(e2, W')" e2 W']
      round rec
    obtain k where k: "length W = length W' + 4 * k" "0 < k \<longrightarrow> length W \<le> qlen"
      by auto
    have "length W = length wins + 4 * (Suc k)" "length W \<le> qlen"
      using k lw room by (cases k; simp)+
    then show ?thesis
      by blast
  next
    case False
    with "1.prems" have "W = wins"
      by (subst (asm) war.simps) auto
    then show ?thesis
      by (intro exI [of _ 0]) simp
  qed
qed

lemma war_error:
  "war p1 p2 c1 c2 wins = Inl e \<Longrightarrow> e = IndexOutOfRange"
proof (induction p1 p2 c1 c2 wins rule: war.induct)
  case (1 p1 p2 c1 c2 wins)
  show ?case
  proof (cases "c1 = c2 \<and> Alive p1")
    case True
    show ?thesis
    proof (cases "qlen < length wins + 4")
      case over: True
      then show ?thesis
        using "1.prems" True by (subst (asm) war.simps) simp
    next
      case room: False
      obtain a b e1 e2 W' where round: "war_round p1 p2 wins = (a, b, e1, e2, W')"
        by (metis prod_cases5)
      have rec: "war a b e1 e2 W' = Inl e"
        using "1.prems" True room round by (subst (asm) war.simps) simp
      from "1.IH" [OF True room, of a "(b, e1, e2, W')" b "(e1, e2, W')" e1 "(e2, W')" e2 W']
        round rec
      show ?thesis by simp
    qed
  next
    case False
    with "1.prems" show ?thesis
      by (subst (asm) war.simps) auto
  qed
qed

text \<open>
  Claim C2, amended: for every pair of hands and every state of the random source, each
  trick of \<open>playGame\<close> ends: its war loop either returns, after at most 15 rounds, or
  panics on the buffer in the sixteenth; and \<open>playGame\<close> returns exactly when the trick
  loop reaches, after some number of tricks, a panic or a state in which a hand is not
  alive. That such a state is reached is not guaranteed.
\<close>

theorem playGame_returns_iff:
  "(case war p1a p2a c1 c2 [c1, c2] of
      Inl e \<Rightarrow> e = IndexOutOfRange
    | Inr (q1, q2, d1, d2, W) \<Rightarrow> \<exists>k\<le>15. length W = 2 + 4 * k)
   \<and> ((\<exists>fuel res. playGame fuel g p1 p2 r = Some res) \<longleftrightarrow>
        (\<exists>n. case tricks n g p1 p2 r of
                Inl e \<Rightarrow> True
              | Inr (a, b, r') \<Rightarrow> \<not> (Alive a \<and> Alive b)))"
proof -
  have A: "case war p1a p2a c1 c2 [c1, c2] of
             Inl e \<Rightarrow> e = IndexOutOfRange
           | Inr (q1, q2, d1, d2, W) \<Rightarrow> \<exists>k\<le>15. length W = 2 + 4 * k"
  proof (cases "war p1a p2a c1 c2 [c1, c2]")
    case (Inl e)
    then show ?thesis using war_error [OF Inl] by simp
  next
    case (Inr res)
    obtain q1 q2 d1 d2 W where res: "res = (q1, q2, d1, d2, W)"
      by (metis prod_cases5)
    from war_length [OF Inr [unfolded res]] obtain k where
      k: "length W = 2 + 4 * k" "0 < k \<longrightarrow> length W \<le> qlen"
      by auto
    have "k \<le> 15"
      using k by (cases k) (simp_all add: qlen_def)
    then show ?thesis
      using Inr res k by auto
  qed
  have B: "(\<exists>fuel res. playGame fuel g p1 p2 r = Some res) \<longleftrightarrow>
        (\<exists>n. case tricks n g p1 p2 r of
                Inl e \<Rightarrow> True
              | Inr (a, b, r') \<Rightarrow> \<not> (Alive a \<and> Alive b))"
    by (simp add: playGame_tricks split: sum.splits prod.splits) (metis option.distinct(1))
  show ?thesis
    using A B by blast
qed


theorem playGame_returns_iff_witness:
  "\<exists>fuel res. playGame fuel gen_last (Reset new_player [3]) (Reset new_player [2]) () = Some res"
proof -
  have "case tricks 1 gen_last (Reset new_player [3]) (Reset new_player [2]) () of
          Inl e \<Rightarrow> True
        | Inr (a, b, r') \<Rightarrow> \<not> (Alive a \<and> Alive b)"
    by code_simp
  then have "\<exists>n. case tricks n gen_last (Reset new_player [3]) (Reset new_player [2]) () of
                   Inl e \<Rightarrow> True
                 | Inr (a, b, r') \<Rightarrow> \<not> (Alive a \<and> Alive b)"
    by (rule exI)
  then show ?thesis
    using playGame_returns_iff [of new_player new_player 0 0 gen_last "Reset new_player [3]"
        "Reset new_player [2]" "()"]
    by blast
qed

section \<open>The draws of a trick\<close>

lemma length_draw_n: "length (fst (draw_n n rg)) = n"
  by (induction n arbitrary: rg) (simp_all add: draw_n_Suc del: draw_n.simps(2))

lemma draw_n_add:
  "draw_n (m + n) rg =
     (fst (draw_n m rg) @ fst (draw_n n (snd (draw_n m rg))), snd (draw_n n (snd (draw_n m rg))))"
  by (induction m arbitrary: rg) (simp_all add: draw_n_Suc del: draw_n.simps(2))

lemma draw_n_2:
  "draw_n 2 rg =
     ([fst (DrawCard rg), fst (DrawCard (snd (DrawCard rg)))], snd (DrawCard (snd (DrawCard rg))))"
  by (simp add: numeral_2_eq_2 draw_n_Suc del: draw_n.simps(2))

lemma war_round_draws:
  "war_round p1 p2 wins =
     (snd (draw_n 2 p1), snd (draw_n 2 p2), last (fst (draw_n 2 p1)), last (fst (draw_n 2 p2)),
      wins @ [hd (fst (draw_n 2 p1)), hd (fst (draw_n 2 p2)),
              last (fst (draw_n 2 p1)), last (fst (draw_n 2 p2))])"
  by (simp add: war_round_def draw_n_2 split: prod.splits)

lemma war_draws:
  "war p1 p2 c1 c2 wins = Inr (q1, q2, d1, d2, W) \<Longrightarrow>
     \<exists>k. q1 = snd (draw_n (2 * k) p1) \<and> q2 = snd (draw_n (2 * k) p2)
        \<and> mset W = mset wins + mset (fst (draw_n (2 * k) p1)) + mset (fst (draw_n (2 * k) p2))
        \<and> length W = length wins + 4 * k
        \<and> (0 < k \<longrightarrow> length W \<le> qlen)
        \<and> (if k = 0 then d1 = c1 \<and> d2 = c2
            else d1 = last (fst (draw_n (2 * k) p1)) \<and> d2 = last (fst (draw_n (2 * k) p2)))
        \<and> (0 < k \<longrightarrow> c1 = c2 \<and> Alive (snd (draw_n (2 * (k - 1)) p1)))
        \<and> (1 < k \<longrightarrow> last (fst (draw_n (2 * (k - 1)) p1)) = last (fst (draw_n (2 * (k - 1)) p2)))"
proof (induction p1 p2 c1 c2 wins rule: war.induct)
  case (1 p1 p2 c1 c2 wins)
  show ?case
  proof (cases "c1 = c2 \<and> Alive p1")
    case True
    with "1.prems" have room: "\<not> qlen < length wins + 4"
      by (subst (asm) war.simps) (simp split: if_splits)
    let ?a = "snd (draw_n 2 p1)" and ?b = "snd (draw_n 2 p2)"
    let ?D1 = "fst (draw_n 2 p1)" and ?D2 = "fst (draw_n 2 p2)"
    let ?W' = "wins @ [hd ?D1, hd ?D2, last ?D1, last ?D2]"
    note round = war_round_draws [of p1 p2 wins]
    have rec: "war ?a ?b (last ?D1) (last ?D2) ?W' = Inr (q1, q2, d1, d2, W)"
      using "1.prems" True room round by (subst (asm) war.simps) simp
    from "1.IH" [OF True room round [symmetric] refl refl refl rec]
    obtain k where k: "q1 = snd (draw_n (2 * k) ?a)" "q2 = snd (draw_n (2 * k) ?b)"
      "mset W = mset ?W' + mset (fst (draw_n (2 * k) ?a)) + mset (fst (draw_n (2 * k) ?b))"
      "length W = length ?W' + 4 * k" "0 < k \<longrightarrow> length W \<le> qlen"
      "if k = 0 then d1 = last ?D1 \<and> d2 = last ?D2
       else d1 = last (fst (draw_n (2 * k) ?a)) \<and> d2 = last (fst (draw_n (2 * k) ?b))"
      "0 < k \<longrightarrow> last ?D1 = last ?D2 \<and> Alive (snd (draw_n (2 * (k - 1)) ?a))"
      "1 < k \<longrightarrow> last (fst (draw_n (2 * (k - 1)) ?a)) = last (fst (draw_n (2 * (k - 1)) ?b))"
      by blast
    have two: "?D1 = [hd ?D1, last ?D1]" "?D2 = [hd ?D2, last ?D2]"
      by (simp_all add: draw_n_2)
    have split1: "draw_n (2 * Suc j) p1 = (?D1 @ fst (draw_n (2 * j) ?a), snd (draw_n (2 * j) ?a))"
      for j
      using draw_n_add [of 2 "2 * j" p1] by simp
    have split2: "draw_n (2 * Suc j) p2 = (?D2 @ fst (draw_n (2 * j) ?b), snd (draw_n (2 * j) ?b))"
      for j
      using draw_n_add [of 2 "2 * j" p2] by simp
    have ms: "mset ?W' = mset wins + mset ?D1 + mset ?D2"
      by (subst (3) two(1), subst (3) two(2)) simp
    have ne: "0 < j \<Longrightarrow> fst (draw_n (2 * j) ?a) \<noteq> [] \<and> fst (draw_n (2 * j) ?b) \<noteq> []" for j
      using length_draw_n [of "2 * j" ?a] length_draw_n [of "2 * j" ?b] by auto
    have lastD: "d1 = last (fst (draw_n (2 * Suc k) p1)) \<and> d2 = last (fst (draw_n (2 * Suc k) p2))"
    proof (cases "k = 0")
      case True
      then show ?thesis
        using k(6) split1 [of k] split2 [of k] by simp
    next
      case False
      then show ?thesis
        using k(6) ne [of k] split1 [of k] split2 [of k] by simp
    qed
    have lenW: "length W = length wins + 4 * Suc k"
      using k(4) by simp
    have entry: "Alive (snd (draw_n (2 * k) p1))"
    proof (cases k)
      case 0
      then show ?thesis using True by simp
    next
      case (Suc j)
      then show ?thesis
        using k(7) split1 [of j] by simp
    qed
    have tie: "last (fst (draw_n (2 * k) p1)) = last (fst (draw_n (2 * k) p2))" if "0 < k"
    proof (cases k)
      case 0
      then show ?thesis using that by simp
    next
      case (Suc j)
      show ?thesis
      proof (cases "j = 0")
        case True
        then show ?thesis
          using k(7) Suc by simp
      next
        case False
        then show ?thesis
          using k(8) Suc ne [of j] split1 [of j] split2 [of j] by simp
      qed
    qed
    have "length W \<le> qlen"
      using k(4,5) room by (cases k) simp_all
    then show ?thesis
      using k(1,2,3) split1 [of k] split2 [of k] ms lastD lenW entry tie True
      by (intro exI [of _ "Suc k"]) (simp del: mult_Suc_right)
  next
    case False
    with "1.prems" have "q1 = p1" "q2 = p2" "d1 = c1" "d2 = c2" "W = wins"
      by (subst (asm) war.simps, simp)+
    then show ?thesis
      by (intro exI [of _ 0]) simp
  qed
qed

text \<open>
  A trick that returns has drawn the same number \<open>t\<close> of cards from each hand and gives
  all of them to one hand. It goes beyond the first card only on a tie; the round that
  brought it to \<open>t\<close> cards started, after \<open>t - 2\<close> cards, on a tie with hand 1 alive.
\<close>

lemma trick_draws:
  assumes "rand_ok g" "trick g p1 p2 r = Inr (a, b, r')"
  shows "\<exists>t W. 0 < t \<and> 2 * t < qlen
        \<and> mset W = mset (fst (draw_n t p1)) + mset (fst (draw_n t p2)) \<and> length W = 2 * t
        \<and> (last (fst (draw_n t p1)) = last (fst (draw_n t p2)) \<longrightarrow> \<not> Alive (snd (draw_n t p1)))
        \<and> (if last (fst (draw_n t p2)) < last (fst (draw_n t p1))
            then Accept (snd (draw_n t p1)) W = Inr a \<and> b = snd (draw_n t p2)
            else a = snd (draw_n t p1) \<and> Accept (snd (draw_n t p2)) W = Inr b)
        \<and> (fst (DrawCard p1) \<noteq> fst (DrawCard p2) \<longrightarrow> t = 1)
        \<and> (1 < t \<longrightarrow> Alive (snd (draw_n (t - 2) p1))
              \<and> last (fst (draw_n (t - 2) p1)) = last (fst (draw_n (t - 2) p2)))"
proof -
  let ?c1 = "fst (DrawCard p1)" and ?c2 = "fst (DrawCard p2)"
  let ?p1a = "snd (DrawCard p1)" and ?p2a = "snd (DrawCard p2)"
  from assms(2) obtain q1 q2 d1 d2 Wn where
    war: "war ?p1a ?p2a ?c1 ?c2 [?c1, ?c2] = Inr (q1, q2, d1, d2, Wn)"
    by (auto simp: trick_def split: prod.splits sum.splits)
  from war_draws [OF war] obtain k where
    k: "q1 = snd (draw_n (2 * k) ?p1a)" "q2 = snd (draw_n (2 * k) ?p2a)"
      "mset Wn = mset [?c1, ?c2] + mset (fst (draw_n (2 * k) ?p1a))
                 + mset (fst (draw_n (2 * k) ?p2a))"
      "length Wn = length [?c1, ?c2] + 4 * k" "0 < k \<longrightarrow> length Wn \<le> qlen"
      "if k = 0 then d1 = ?c1 \<and> d2 = ?c2
       else d1 = last (fst (draw_n (2 * k) ?p1a)) \<and> d2 = last (fst (draw_n (2 * k) ?p2a))"
      "0 < k \<longrightarrow> ?c1 = ?c2 \<and> Alive (snd (draw_n (2 * (k - 1)) ?p1a))"
      "1 < k \<longrightarrow> last (fst (draw_n (2 * (k - 1)) ?p1a)) = last (fst (draw_n (2 * (k - 1)) ?p2a))"
    by blast
  let ?t = "Suc (2 * k)"
  have s1: "draw_n (Suc j) p1 = (?c1 # fst (draw_n j ?p1a), snd (draw_n j ?p1a))"
    and s2: "draw_n (Suc j) p2 = (?c2 # fst (draw_n j ?p2a), snd (draw_n j ?p2a))" for j
    by (simp_all add: draw_n_Suc del: draw_n.simps(2))
  have ne: "0 < j \<Longrightarrow> fst (draw_n j ?p1a) \<noteq> [] \<and> fst (draw_n j ?p2a) \<noteq> []" for j
    using length_draw_n [of j ?p1a] length_draw_n [of j ?p2a] by auto
  have d: "d1 = last (fst (draw_n ?t p1))" "d2 = last (fst (draw_n ?t p2))"
    using k(6) ne [of "2 * k"] s1 [of "2 * k"] s2 [of "2 * k"] by (cases "k = 0"; simp)+
  have q: "q1 = snd (draw_n ?t p1)" "q2 = snd (draw_n ?t p2)"
    using k(1,2) s1 [of "2 * k"] s2 [of "2 * k"] by simp_all
  have ms: "mset Wn = mset (fst (draw_n ?t p1)) + mset (fst (draw_n ?t p2))"
    using k(3) s1 [of "2 * k"] s2 [of "2 * k"] by simp
  have len: "length Wn = 2 * ?t"
    using k(4) by simp
  have bound: "2 * ?t < qlen"
  proof (cases "k = 0")
    case True
    then show ?thesis by (simp add: qlen_def)
  next
    case False
    then have "2 + 4 * k \<le> 64"
      using k(4,5) by (simp add: qlen_def)
    then show ?thesis
      unfolding qlen_def by presburger
  qed
  have ex: "d1 = d2 \<longrightarrow> \<not> Alive q1"
    using war_exit [OF war] by blast
  have one: "?c1 \<noteq> ?c2 \<longrightarrow> ?t = 1"
    using k(7) by auto
  have depth: "Alive (snd (draw_n (?t - 2) p1))
      \<and> last (fst (draw_n (?t - 2) p1)) = last (fst (draw_n (?t - 2) p2))" if "1 < ?t"
  proof -
    from that obtain j where j: "k = Suc j"
      by (cases k) auto
    have t2: "?t - 2 = Suc (2 * j)"
      using j by simp
    have al: "Alive (snd (draw_n (Suc (2 * j)) p1))"
      using k(7) j s1 [of "2 * j"] by simp
    have "last (fst (draw_n (Suc (2 * j)) p1)) = last (fst (draw_n (Suc (2 * j)) p2))"
    proof (cases "j = 0")
      case True
      then show ?thesis
        using k(7) j s1 [of 0] s2 [of 0] by simp
    next
      case False
      then show ?thesis
        using k(8) j ne [of "2 * j"] s1 [of "2 * j"] s2 [of "2 * j"] by simp
    qed
    then show ?thesis
      using al t2 by simp
  qed
  show ?thesis
  proof (cases "d2 < d1")
    case True
    from shuffle_ok [OF assms(1), of Wn r] obtain ws r1 where
      sh: "shuffle g Wn r = Inr (ws, r1)" "mset ws = mset Wn" "length ws = length Wn"
      by blast
    have "Accept q1 ws = Inr a \<and> b = q2"
      using assms(2) war True sh(1) by (auto simp: trick_def split: prod.splits sum.splits)
    then show ?thesis
      using True d q ms len bound ex sh(2,3) one depth
      by (intro exI [of _ ?t] exI [of _ ws]) simp
  next
    case False
    have "a = q1 \<and> Accept q2 (mySort Wn) = Inr b"
      using assms(2) war False by (auto simp: trick_def split: prod.splits sum.splits)
    then show ?thesis
      using False d q ms len bound ex one depth mset_mySort [of Wn] length_mySort [of Wn]
      by (intro exI [of _ ?t] exI [of _ "mySort Wn"]) simp
  qed
qed

lemma wf_DrawCard: "wf_player rg \<Longrightarrow> wf_player (snd (DrawCard rg))"
  by (auto simp: wf_player_def DrawCard_def)

lemma rIdx_Accept: "Accept rg ws = Inr rg' \<Longrightarrow> rIdx rg' = rIdx rg"
  by (auto simp: Accept_def Let_def split: if_splits)

text \<open>Draws that leave at least one card follow the queue, wherever the write index is.\<close>

lemma draw_n_within:
  "wf_player rg \<Longrightarrow> n < length (hand_cards rg) \<Longrightarrow>
     fst (draw_n n rg) = take n (hand_cards rg)
     \<and> hand_cards (snd (draw_n n rg)) = drop n (hand_cards rg)
     \<and> wf_player (snd (draw_n n rg))"
proof (induction n arbitrary: rg)
  case 0
  then show ?case by simp
next
  case (Suc n)
  then obtain c cs where hc: "hand_cards rg = c # cs"
    by (cases "hand_cards rg") auto
  have ns: "\<not> (rIdx rg = qlen - 1 \<and> wIdx rg = qlen)"
  proof
    assume "rIdx rg = qlen - 1 \<and> wIdx rg = qlen"
    then have "length (hand_cards rg) = 1"
      using length_hand_cards [OF Suc.prems(1)] by (simp add: qlen_def)
    then show False
      using Suc.prems(2) by simp
  qed
  from snd_DrawCard_hand [OF Suc.prems(1) ns]
  have tl: "hand_cards (snd (DrawCard rg)) = cs" and wf: "wf_player (snd (DrawCard rg))"
    using hc by simp_all
  have "n < length (hand_cards (snd (DrawCard rg)))"
    using Suc.prems(2) hc tl by simp
  from Suc.IH [OF wf this] show ?case
    using fst_DrawCard_hand [OF Suc.prems(1)] hc tl
    by (simp add: draw_n_Suc del: draw_n.simps(2))
qed

text \<open>With the write index resting at \<open>qlen\<close> every draw advances the read index.\<close>

lemma draw_n_resting:
  "wf_player rg \<Longrightarrow> wIdx rg = qlen \<Longrightarrow> rIdx (snd (draw_n n rg)) = (rIdx rg + n) mod qlen"
proof (induction n arbitrary: rg)
  case 0
  then show ?case by (simp add: wf_player_def)
next
  case (Suc n)
  have r: "rIdx rg < qlen"
    using Suc.prems(1) by (simp add: wf_player_def)
  then have step: "rIdx (snd (DrawCard rg)) = (rIdx rg + 1) mod qlen"
    using Suc.prems(2) by (auto simp: DrawCard_def)
  have w: "wIdx (snd (DrawCard rg)) = qlen"
    using Suc.prems(2) by (simp add: wIdx_DrawCard)
  have "rIdx (snd (draw_n n (snd (DrawCard rg)))) = ((rIdx rg + 1) mod qlen + n) mod qlen"
    using Suc.IH [OF wf_DrawCard [OF Suc.prems(1)] w] step by simp
  also have "\<dots> = (rIdx rg + Suc n) mod qlen"
    by (simp add: mod_add_left_eq)
  finally show ?case
    by (simp add: draw_n_Suc del: draw_n.simps(2))
qed

section \<open>The winner of a trick\<close>

lemma shuffle_loop_keeps:
  "rand_ok g \<Longrightarrow> m \<le> length vals \<Longrightarrow> shuffle_loop g m vals rnd = Inr (ws, r') \<Longrightarrow>
     m \<le> i \<Longrightarrow> i < length vals \<Longrightarrow> ws ! i = vals ! i"
proof (induction m arbitrary: vals rnd)
  case 0
  then show ?case by simp
next
  case (Suc m)
  obtain k rnd1 where draw: "g rnd (Suc m) = (k, rnd1)"
    by (cases "g rnd (Suc m)")
  have "k < Suc m"
    using Suc.prems(1) draw unfolding rand_ok_def by (metis fst_conv zero_less_Suc)
  then have k: "k < length vals" "k < i" and m: "m < length vals" "m < i"
    using Suc.prems(2,4) by simp_all
  let ?vals = "vals[m := vals ! k, k := vals ! m]"
  have rec: "shuffle_loop g m ?vals rnd1 = Inr (ws, r')"
    using Suc.prems(3) draw k by simp
  have "ws ! i = ?vals ! i"
    using Suc.IH [OF Suc.prems(1) _ rec] m Suc.prems(5) by simp
  then show ?case
    using k m by simp
qed

text \<open>
  The first step of \<open>shuffle\<close> moves the entry at the index drawn from the generator to
  the last place, where it stays.
\<close>

lemma shuffle_last:
  assumes "rand_ok g" "vals \<noteq> []" "shuffle g vals rnd = Inr (ws, r')"
  shows "last ws = vals ! fst (g rnd (length vals))"
proof -
  obtain m where m: "length vals = Suc m"
    using assms(2) by (cases vals) auto
  obtain k rnd1 where draw: "g rnd (Suc m) = (k, rnd1)"
    by (cases "g rnd (Suc m)")
  have "k < Suc m"
    using assms(1) draw unfolding rand_ok_def by (metis fst_conv zero_less_Suc)
  then have k: "k < length vals"
    using m by simp
  let ?vals = "vals[m := vals ! k, k := vals ! m]"
  have rec: "shuffle_loop g m ?vals rnd1 = Inr (ws, r')"
    using assms(3) draw k m by (simp add: shuffle_def)
  have len: "length ws = length vals"
    using shuffle_ok [OF assms(1), of vals rnd] assms(3) by auto
  have "ws ! m = ?vals ! m"
    using shuffle_loop_keeps [OF assms(1) _ rec, of m] m by simp
  also have "\<dots> = vals ! k"
    using k m by (cases "k = m") simp_all
  finally have "ws ! m = vals ! k" .
  moreover have "last ws = ws ! m"
    using len m by (metis diff_Suc_1 last_conv_nth length_0_conv nat.distinct(1))
  ultimately show ?thesis
    using draw m by simp
qed

lemma wf_draw_n: "wf_player rg \<Longrightarrow> wf_player (snd (draw_n n rg))"
  by (induction n arbitrary: rg) (simp_all add: draw_n_Suc wf_DrawCard del: draw_n.simps(2))

text \<open>What \<open>Accept\<close> does to a hand and its array, for at most \<open>qlen\<close> cards.\<close>

lemma Accept_appended:
  assumes "wf_player rg" "length ws \<le> qlen"
  shows "\<exists>rg'. Accept rg ws = Inr rg' \<and> rIdx rg' = rIdx rg
          \<and> wIdx rg' mod qlen = (wIdx rg + length ws) mod qlen
          \<and> (\<forall>i<length ws. cards rg' ! ((wIdx rg + i) mod qlen) = ws ! i)
          \<and> (length (hand_cards rg) + length ws < qlen \<longrightarrow> hand_cards rg' = hand_cards rg @ ws)"
proof -
  from Accept_positions [OF assms] obtain rg' where
    P: "Accept rg ws = Inr rg'" "rIdx rg' = rIdx rg"
      "wIdx rg' mod qlen = (wIdx rg + length ws) mod qlen"
      "\<forall>i<length ws. cards rg' ! ((wIdx rg + i) mod qlen) = ws ! i"
    by blast
  have "hand_cards rg' = hand_cards rg @ ws" if "length (hand_cards rg) + length ws < qlen"
    using Accept_hand [OF assms(1) that] P(1) by auto
  then show ?thesis
    using P by blast
qed

text \<open>
  Claim C1. In a trick on two hands whose indices are within the array, the buffer
  \<open>winnings\<close> holds the cards that the two hands have drawn in the trick, \<open>t\<close> from each,
  and the trick ends with the last cards drawn, \<open>d1\<close> of hand 1 and \<open>d2\<close> of hand 2. If
  \<open>d1\<close> is strictly greater, the buffer is shuffled with the generator (the first index
  asked of it picks the entry that ends up last) and appended to hand 1: the shuffled
  cards are written from the write index on, wrapping around the array, the write index
  advances by their number modulo \<open>qlen\<close>, the read index stays, and when the hand has
  room the cards follow those that the hand holds; hand 2 stays as its draws left it. In
  every other case, which is \<open>d2\<close> strictly greater or the two equal with hand 1
  exhausted, the buffer is sorted into non-increasing order and appended to hand 2 in the
  same way, hand 1 staying as its draws left it.
\<close>

theorem trick_winner_collects:
  assumes "rand_ok int32n" "wf_player p1" "wf_player p2"
    and "DrawCard p1 = (c1, p1a)" "DrawCard p2 = (c2, p2a)"
    and "war p1a p2a c1 c2 [c1, c2] = Inr (p1b, p2b, d1, d2, winnings)"
  shows "(\<exists>t. 0 < t \<and> length winnings = 2 * t
            \<and> mset winnings = mset (fst (draw_n t p1)) + mset (fst (draw_n t p2))
            \<and> p1b = snd (draw_n t p1) \<and> p2b = snd (draw_n t p2)
            \<and> d1 = last (fst (draw_n t p1)) \<and> d2 = last (fst (draw_n t p2)))
       \<and> (if d2 < d1
          then \<exists>ws rnd' p1c. shuffle int32n winnings rnd = Inr (ws, rnd')
                 \<and> mset ws = mset winnings
                 \<and> last ws = winnings ! fst (int32n rnd (length winnings))
                 \<and> Accept p1b ws = Inr p1c \<and> trick int32n p1 p2 rnd = Inr (p1c, p2b, rnd')
                 \<and> rIdx p1c = rIdx p1b
                 \<and> wIdx p1c mod qlen = (wIdx p1b + length ws) mod qlen
                 \<and> (\<forall>i<length ws. cards p1c ! ((wIdx p1b + i) mod qlen) = ws ! i)
                 \<and> (length (hand_cards p1b) + length ws < qlen \<longrightarrow>
                      hand_cards p1c = hand_cards p1b @ ws)
          else (d1 < d2 \<or> d1 = d2 \<and> \<not> Alive p1b)
                 \<and> sorted_wrt (\<lambda>a b. b \<le> a) (mySort winnings)
                 \<and> mset (mySort winnings) = mset winnings
                 \<and> (\<exists>p2c. Accept p2b (mySort winnings) = Inr p2c
                       \<and> trick int32n p1 p2 rnd = Inr (p1b, p2c, rnd)
                       \<and> rIdx p2c = rIdx p2b
                       \<and> wIdx p2c mod qlen = (wIdx p2b + length winnings) mod qlen
                       \<and> (\<forall>i<length winnings.
                             cards p2c ! ((wIdx p2b + i) mod qlen) = mySort winnings ! i)
                       \<and> (length (hand_cards p2b) + length winnings < qlen \<longrightarrow>
                            hand_cards p2c = hand_cards p2b @ mySort winnings)))"
proof -
  have a: "p1a = snd (DrawCard p1)" "c1 = fst (DrawCard p1)"
    and b: "p2a = snd (DrawCard p2)" "c2 = fst (DrawCard p2)"
    using assms(4,5) by simp_all
  from war_draws [OF assms(6)] obtain k where
    k: "p1b = snd (draw_n (2 * k) p1a)" "p2b = snd (draw_n (2 * k) p2a)"
      "mset winnings = mset [c1, c2] + mset (fst (draw_n (2 * k) p1a))
                 + mset (fst (draw_n (2 * k) p2a))"
      "length winnings = length [c1, c2] + 4 * k" "0 < k \<longrightarrow> length winnings \<le> qlen"
      "if k = 0 then d1 = c1 \<and> d2 = c2
       else d1 = last (fst (draw_n (2 * k) p1a)) \<and> d2 = last (fst (draw_n (2 * k) p2a))"
    by blast
  let ?t = "Suc (2 * k)"
  have s1: "draw_n ?t p1 = (c1 # fst (draw_n (2 * k) p1a), p1b)"
    and s2: "draw_n ?t p2 = (c2 # fst (draw_n (2 * k) p2a), p2b)"
    using k(1,2) a b by (simp_all add: draw_n_Suc del: draw_n.simps(2))
  have ne: "0 < k \<Longrightarrow> fst (draw_n (2 * k) p1a) \<noteq> [] \<and> fst (draw_n (2 * k) p2a) \<noteq> []"
    using length_draw_n [of "2 * k" p1a] length_draw_n [of "2 * k" p2a] by auto
  have d: "d1 = last (fst (draw_n ?t p1))" "d2 = last (fst (draw_n ?t p2))"
    using k(6) ne s1 s2 by (cases "k = 0"; simp)+
  have A: "\<exists>t. 0 < t \<and> length winnings = 2 * t
            \<and> mset winnings = mset (fst (draw_n t p1)) + mset (fst (draw_n t p2))
            \<and> p1b = snd (draw_n t p1) \<and> p2b = snd (draw_n t p2)
            \<and> d1 = last (fst (draw_n t p1)) \<and> d2 = last (fst (draw_n t p2))"
    using k(3,4) s1 s2 d by (intro exI [of _ ?t]) simp
  have lenW: "length winnings \<le> qlen" and neW: "winnings \<noteq> []"
    using k(4,5) by (cases "k = 0"; auto simp: qlen_def)+
  have wfb: "wf_player p1b" "wf_player p2b"
    using k(1,2) a b assms(2,3) by (simp_all add: wf_draw_n wf_DrawCard)
  note ex = war_exit [OF assms(6)]
  have B: "if d2 < d1
          then \<exists>ws rnd' p1c. shuffle int32n winnings rnd = Inr (ws, rnd')
                 \<and> mset ws = mset winnings
                 \<and> last ws = winnings ! fst (int32n rnd (length winnings))
                 \<and> Accept p1b ws = Inr p1c \<and> trick int32n p1 p2 rnd = Inr (p1c, p2b, rnd')
                 \<and> rIdx p1c = rIdx p1b
                 \<and> wIdx p1c mod qlen = (wIdx p1b + length ws) mod qlen
                 \<and> (\<forall>i<length ws. cards p1c ! ((wIdx p1b + i) mod qlen) = ws ! i)
                 \<and> (length (hand_cards p1b) + length ws < qlen \<longrightarrow>
                      hand_cards p1c = hand_cards p1b @ ws)
          else (d1 < d2 \<or> d1 = d2 \<and> \<not> Alive p1b)
                 \<and> sorted_wrt (\<lambda>a b. b \<le> a) (mySort winnings)
                 \<and> mset (mySort winnings) = mset winnings
                 \<and> (\<exists>p2c. Accept p2b (mySort winnings) = Inr p2c
                       \<and> trick int32n p1 p2 rnd = Inr (p1b, p2c, rnd)
                       \<and> rIdx p2c = rIdx p2b
                       \<and> wIdx p2c mod qlen = (wIdx p2b + length winnings) mod qlen
                       \<and> (\<forall>i<length winnings.
                             cards p2c ! ((wIdx p2b + i) mod qlen) = mySort winnings ! i)
                       \<and> (length (hand_cards p2b) + length winnings < qlen \<longrightarrow>
                            hand_cards p2c = hand_cards p2b @ mySort winnings))"
  proof (cases "d2 < d1")
    case True
    obtain ws rnd' where sh: "shuffle int32n winnings rnd = Inr (ws, rnd')"
      "mset ws = mset winnings" "length ws = length winnings"
      using shuffle_ok [OF assms(1), of winnings rnd] by blast
    have lst: "last ws = winnings ! fst (int32n rnd (length winnings))"
      using shuffle_last [OF assms(1) neW sh(1)] .
    from Accept_appended [OF wfb(1), of ws] lenW sh(3) obtain p1c where
      acc: "Accept p1b ws = Inr p1c" "rIdx p1c = rIdx p1b"
        "wIdx p1c mod qlen = (wIdx p1b + length ws) mod qlen"
        "\<forall>i<length ws. cards p1c ! ((wIdx p1b + i) mod qlen) = ws ! i"
        "length (hand_cards p1b) + length ws < qlen \<longrightarrow> hand_cards p1c = hand_cards p1b @ ws"
      by auto
    have tr: "trick int32n p1 p2 rnd = Inr (p1c, p2b, rnd')"
      using assms(4,5,6) True sh(1) acc(1) by (simp add: trick_def)
    have "\<exists>ws rnd' p1c. shuffle int32n winnings rnd = Inr (ws, rnd')
                 \<and> mset ws = mset winnings
                 \<and> last ws = winnings ! fst (int32n rnd (length winnings))
                 \<and> Accept p1b ws = Inr p1c \<and> trick int32n p1 p2 rnd = Inr (p1c, p2b, rnd')
                 \<and> rIdx p1c = rIdx p1b
                 \<and> wIdx p1c mod qlen = (wIdx p1b + length ws) mod qlen
                 \<and> (\<forall>i<length ws. cards p1c ! ((wIdx p1b + i) mod qlen) = ws ! i)
                 \<and> (length (hand_cards p1b) + length ws < qlen \<longrightarrow>
                      hand_cards p1c = hand_cards p1b @ ws)"
      using sh(1,2) lst acc tr by blast
    then show ?thesis
      using True by simp
  next
    case False
    have ls: "length (mySort winnings) = length winnings"
      by (rule length_mySort)
    from Accept_appended [OF wfb(2), of "mySort winnings"] lenW ls obtain p2c where
      acc: "Accept p2b (mySort winnings) = Inr p2c" "rIdx p2c = rIdx p2b"
        "wIdx p2c mod qlen = (wIdx p2b + length winnings) mod qlen"
        "\<forall>i<length winnings. cards p2c ! ((wIdx p2b + i) mod qlen) = mySort winnings ! i"
        "length (hand_cards p2b) + length winnings < qlen \<longrightarrow>
           hand_cards p2c = hand_cards p2b @ mySort winnings"
      by auto
    have tr: "trick int32n p1 p2 rnd = Inr (p1b, p2c, rnd)"
      using assms(4,5,6) False acc(1) by (simp add: trick_def)
    have c: "d1 < d2 \<or> d1 = d2 \<and> \<not> Alive p1b"
      using False ex by (auto simp: not_less le_less)
    have "\<exists>p2c. Accept p2b (mySort winnings) = Inr p2c
                       \<and> trick int32n p1 p2 rnd = Inr (p1b, p2c, rnd)
                       \<and> rIdx p2c = rIdx p2b
                       \<and> wIdx p2c mod qlen = (wIdx p2b + length winnings) mod qlen
                       \<and> (\<forall>i<length winnings.
                             cards p2c ! ((wIdx p2b + i) mod qlen) = mySort winnings ! i)
                       \<and> (length (hand_cards p2b) + length winnings < qlen \<longrightarrow>
                            hand_cards p2c = hand_cards p2b @ mySort winnings)"
      using acc tr by blast
    then show ?thesis
      using False c non_increasing_mySort [of winnings] mset_mySort [of winnings] by simp
  qed
  show ?thesis
    using A B by (rule conjI)
qed

theorem trick_winner_collects_witness:
  "(\<exists>p1c. trick gen_zero (Reset new_player [3, 5]) (Reset new_player [2, 7]) ()
             = Inr (p1c, snd (DrawCard (Reset new_player [2, 7])), ())
          \<and> hand_cards p1c = [5, 2, 3])
   \<and> (\<exists>p2c. trick gen_zero (Reset new_player [2, 7]) (Reset new_player [3, 5]) ()
             = Inr (snd (DrawCard (Reset new_player [2, 7])), p2c, ())
          \<and> hand_cards p2c = [5, 3, 2])
   \<and> (\<exists>p2c. trick gen_zero (Reset new_player [4]) (Reset new_player [4, 9]) ()
             = Inr (snd (DrawCard (Reset new_player [4])), p2c, ())
          \<and> hand_cards p2c = [9, 4, 4])"
proof -
  let ?A = "Reset new_player [3, 5]" and ?B = "Reset new_player [2, 7]"
  let ?C = "Reset new_player [4]" and ?D = "Reset new_player [4, 9]"
  have wf: "wf_player ?A" "wf_player ?B" "wf_player ?C" "wf_player ?D"
    by code_simp+
  have dA: "DrawCard ?A = (3, snd (DrawCard ?A))" and dB: "DrawCard ?B = (2, snd (DrawCard ?B))"
    and dC: "DrawCard ?C = (4, snd (DrawCard ?C))" and dD: "DrawCard ?D = (4, snd (DrawCard ?D))"
    by code_simp+
  have hA: "hand_cards (snd (DrawCard ?A)) = [5]" and hD: "hand_cards (snd (DrawCard ?D)) = [9]"
    by code_simp+
  have first: "\<exists>p1c. trick gen_zero ?A ?B () = Inr (p1c, snd (DrawCard ?B), ())
                 \<and> hand_cards p1c = [5, 2, 3]"
  proof -
    have w: "war (snd (DrawCard ?A)) (snd (DrawCard ?B)) 3 2 [3, 2]
               = Inr (snd (DrawCard ?A), snd (DrawCard ?B), 3, 2, [3, 2])"
      by code_simp
    have sh: "shuffle gen_zero [3, 2] () = Inr ([2, 3], ())"
      by code_simp
    have lt: "(2::u8) < 3"
      by simp
    from trick_winner_collects [OF rand_ok_gen_zero wf(1,2) dA dB w, of "()"] lt
    obtain ws rnd' p1c where
      R: "shuffle gen_zero [3, 2] () = Inr (ws, rnd')"
        "trick gen_zero ?A ?B () = Inr (p1c, snd (DrawCard ?B), rnd')"
        "length (hand_cards (snd (DrawCard ?A))) + length ws < qlen \<longrightarrow>
           hand_cards p1c = hand_cards (snd (DrawCard ?A)) @ ws"
      by auto
    have ws: "ws = [2, 3]" "rnd' = ()"
      using R(1) sh by simp_all
    have "hand_cards p1c = [5, 2, 3]"
      using R(3) ws hA by (simp add: qlen_def)
    then show ?thesis
      using R(2) ws by blast
  qed
  have second: "\<exists>p2c. trick gen_zero ?B ?A () = Inr (snd (DrawCard ?B), p2c, ())
                 \<and> hand_cards p2c = [5, 3, 2]"
  proof -
    have w: "war (snd (DrawCard ?B)) (snd (DrawCard ?A)) 2 3 [2, 3]
               = Inr (snd (DrawCard ?B), snd (DrawCard ?A), 2, 3, [2, 3])"
      by code_simp
    have so: "mySort [2, 3] = [3, 2]"
      by code_simp
    have lt: "\<not> (3::u8) < 2"
      by simp
    from trick_winner_collects [OF rand_ok_gen_zero wf(2,1) dB dA w, of "()"] lt
    obtain p2c where
      R: "trick gen_zero ?B ?A () = Inr (snd (DrawCard ?B), p2c, ())"
        "length (hand_cards (snd (DrawCard ?A))) + length [2::u8, 3] < qlen \<longrightarrow>
           hand_cards p2c = hand_cards (snd (DrawCard ?A)) @ mySort [2, 3]"
      by auto
    have "hand_cards p2c = [5, 3, 2]"
      using R(2) so hA by (simp add: qlen_def)
    then show ?thesis
      using R(1) by blast
  qed
  have third: "\<exists>p2c. trick gen_zero ?C ?D () = Inr (snd (DrawCard ?C), p2c, ())
                 \<and> hand_cards p2c = [9, 4, 4]"
  proof -
    have w: "war (snd (DrawCard ?C)) (snd (DrawCard ?D)) 4 4 [4, 4]
               = Inr (snd (DrawCard ?C), snd (DrawCard ?D), 4, 4, [4, 4])"
      by code_simp
    have so: "mySort [4, 4] = [4, 4]"
      by code_simp
    have lt: "\<not> (4::u8) < 4"
      by simp
    from trick_winner_collects [OF rand_ok_gen_zero wf(3,4) dC dD w, of "()"] lt
    obtain p2c where
      R: "trick gen_zero ?C ?D () = Inr (snd (DrawCard ?C), p2c, ())"
        "length (hand_cards (snd (DrawCard ?D))) + length [4::u8, 4] < qlen \<longrightarrow>
           hand_cards p2c = hand_cards (snd (DrawCard ?D)) @ mySort [4, 4]"
      by auto
    have "hand_cards p2c = [9, 4, 4]"
      using R(2) so hD by (simp add: qlen_def)
    then show ?thesis
      using R(1) by blast
  qed
  show ?thesis
    using first second third by (intro conjI)
qed

section \<open>The cards that a trick moves\<close>

lemma wIdx_draw_n: "wIdx (snd (draw_n n rg)) = wIdx rg"
  by (induction n arbitrary: rg) (simp_all add: draw_n_Suc wIdx_DrawCard del: draw_n.simps(2))

lemma draw_n_prefix: "m \<le> t \<Longrightarrow> fst (draw_n m rg) = take m (fst (draw_n t rg))"
  using draw_n_add [of m "t - m" rg] length_draw_n [of m rg] by simp

lemma last_draw_n: "0 < m \<Longrightarrow> m \<le> t \<Longrightarrow> last (fst (draw_n m rg)) = fst (draw_n t rg) ! (m - 1)"
proof -
  assume m: "0 < m" "m \<le> t"
  have "fst (draw_n m rg) \<noteq> []"
    using length_draw_n [of m rg] m(1) by auto
  then have "last (fst (draw_n m rg)) = fst (draw_n m rg) ! (m - 1)"
    by (simp add: last_conv_nth length_draw_n)
  also have "\<dots> = fst (draw_n t rg) ! (m - 1)"
    using m by (simp add: draw_n_prefix [OF m(2)])
  finally show ?thesis .
qed

lemma padded_nth:
  "i < t \<Longrightarrow> (take t h @ replicate (t - length h) (0::u8)) ! i = (if i < length h then h ! i else 0)"
  by (auto simp: nth_append)

text \<open>
  A hand whose write index rests at \<open>qlen\<close> and that is not caught in a trick of \<open>t\<close>
  draws still held a card after them, or drew exactly its last card and won the trick.
\<close>

lemma resting_draws:
  assumes wf: "wf_player rg" and w: "wIdx rg = qlen" and t: "2 * t < qlen"
    and nw: "\<not> wrapped rg x" and rx: "rIdx x = rIdx (snd (draw_n t rg))"
  shows "t < length (hand_cards rg)
         \<or> t = length (hand_cards rg) \<and> rIdx x = 0 \<and> wIdx x \<noteq> qlen"
proof -
  have r: "rIdx rg < qlen"
    using wf by (simp add: wf_player_def)
  have l: "length (hand_cards rg) = qlen - rIdx rg"
    using length_hand_cards [OF wf] w r by simp
  have rx': "rIdx x = (rIdx rg + t) mod qlen"
    using rx draw_n_resting [OF wf w, of t] by simp
  show ?thesis
  proof (cases "rIdx rg + t < qlen")
    case True
    then have "t < length (hand_cards rg)"
      using l by linarith
    then show ?thesis ..
  next
    case False
    then have over: "qlen \<le> rIdx rg + t"
      by simp
    have "rIdx rg + t - qlen < qlen"
      using t r by (simp add: qlen_def)
    then have m: "(rIdx rg + t) mod qlen = rIdx rg + t - qlen"
      using over by (simp add: le_mod_geq)
    then have "rIdx x < rIdx rg"
      using rx' t over by (simp add: qlen_def)
    then have x: "rIdx x = 0" "wIdx x \<noteq> qlen"
      using nw w by (auto simp: wrapped_def)
    have "rIdx rg + t - qlen = 0"
      using x(1) rx' m by simp
    then have "t = length (hand_cards rg)"
      using l over by linarith
    then show ?thesis
      using x by simp
  qed
qed

text \<open>A hand that has drawn its last card at the end of the array accepts from index 0.\<close>

lemma Accept_ghost:
  assumes "wf_player rg" "rIdx rg = 0" "wIdx rg = qlen" "ws \<noteq> []" "length ws < qlen"
  shows "\<exists>rg'. Accept rg ws = Inr rg' \<and> hand_cards rg' = ws \<and> wf_player rg'"
proof -
  have len: "length (cards rg) = qlen"
    using assms(1) by (simp add: wf_player_def)
  have over: "qlen < wIdx rg + length ws"
    using assms(3,4) by simp
  have "Accept rg ws = Inr (rg\<lparr>cards := ws @ drop (length ws) (cards rg), wIdx := length ws\<rparr>)"
    using Accept_wrap [OF len _ over] assms(3,5) len by simp
  moreover have "hand_cards (rg\<lparr>cards := ws @ drop (length ws) (cards rg), wIdx := length ws\<rparr>) = ws"
    using assms(2) by (simp add: hand_cards_def)
  moreover have "wf_player (rg\<lparr>cards := ws @ drop (length ws) (cards rg), wIdx := length ws\<rparr>)"
    using assms(2,5) len by (intro wf_player_update) (simp_all add: qlen_def)
  ultimately show ?thesis
    by blast
qed

text \<open>
  The draws of a hand that is not caught in the trick: its cards in order, and then a 0
  for each card that it lacks.
\<close>

lemma hand_draws:
  assumes wf: "wf_player rg" and t: "2 * t < qlen"
    and nw: "\<not> wrapped rg x" and rx: "rIdx x = rIdx (snd (draw_n t rg))"
  shows "fst (draw_n t rg) = take t (hand_cards rg) @ replicate (t - length (hand_cards rg)) 0
         \<and> (wIdx rg = qlen \<longrightarrow> t \<le> length (hand_cards rg))"
proof (cases "wIdx rg = qlen")
  case True
  from resting_draws [OF wf True t nw rx] have le: "t \<le> length (hand_cards rg)"
    by auto
  then show ?thesis
    using draw_n_take [OF wf le] by simp
next
  case False
  then have w: "wIdx rg < qlen"
    using wf by (simp add: wf_player_def)
  from draw_n_queue [OF wf w, of t] show ?thesis
    using False by simp
qed

lemma hand_loses:
  assumes wf: "wf_player rg" and t: "2 * t < qlen"
    and nw: "\<not> wrapped rg (snd (draw_n t rg))"
  shows "hand_cards (snd (draw_n t rg)) = drop t (hand_cards rg) \<and> wf_player (snd (draw_n t rg))"
proof (cases "wIdx rg = qlen")
  case True
  have "wIdx (snd (draw_n t rg)) = qlen"
    using True by (simp add: wIdx_draw_n)
  with resting_draws [OF wf True t nw refl] have "t < length (hand_cards rg)"
    by auto
  from draw_n_within [OF wf this] show ?thesis
    by simp
next
  case False
  then have w: "wIdx rg < qlen"
    using wf by (simp add: wf_player_def)
  from draw_n_queue [OF wf w, of t] show ?thesis
    by simp
qed

lemma hand_wins:
  assumes wf: "wf_player rg" and t: "0 < t" "2 * t < qlen" and W: "length W = 2 * t"
    and acc: "Accept (snd (draw_n t rg)) W = Inr a"
    and nw: "\<not> wrapped rg a"
    and cap: "t \<le> length (hand_cards rg) \<Longrightarrow> length (hand_cards rg) + t < qlen"
  shows "hand_cards a = drop t (hand_cards rg) @ W \<and> wf_player a"
proof -
  let ?m = "snd (draw_n t rg)"
  have ra: "rIdx a = rIdx ?m"
    using rIdx_Accept [OF acc] .
  have room: "length (drop t (hand_cards rg)) + length W < qlen"
    using cap t(2) W by (cases "t \<le> length (hand_cards rg)") simp_all
  have queue: ?thesis if Q: "hand_cards ?m = drop t (hand_cards rg)" "wf_player ?m"
  proof -
    have "length (hand_cards ?m) + length W < qlen"
      using room Q(1) by simp
    from Accept_hand [OF Q(2) this] acc show ?thesis
      using Q(1) by auto
  qed
  show ?thesis
  proof (cases "wIdx rg = qlen")
    case False
    then have w: "wIdx rg < qlen"
      using wf by (simp add: wf_player_def)
    from draw_n_queue [OF wf w, of t] show ?thesis
      using queue by simp
  next
    case True
    from resting_draws [OF wf True t(2) nw ra]
    show ?thesis
    proof
      assume "t < length (hand_cards rg)"
      from draw_n_within [OF wf this] show ?thesis
        using queue by simp
    next
      assume last: "t = length (hand_cards rg) \<and> rIdx a = 0 \<and> wIdx a \<noteq> qlen"
      have m: "wf_player ?m" "rIdx ?m = 0" "wIdx ?m = qlen"
      proof -
        show "wf_player ?m"
          using wf by (rule wf_draw_n)
        show "rIdx ?m = 0"
          using last ra by metis
        show "wIdx ?m = qlen"
          using True by (simp add: wIdx_draw_n)
      qed
      have "W \<noteq> []" "length W < qlen"
        using W t by auto
      from Accept_ghost [OF m this] acc have "hand_cards a = W" "wf_player a"
        by auto
      then show ?thesis
        using last by simp
    qed
  qed
qed

lemma replicate_mset_add:
  "replicate_mset (m + n) x = replicate_mset m x + replicate_mset n x"
  by (induction m) simp_all

text \<open>
  A trick in which no hand is caught, on hands that hold few enough cards, none of hand
  1 being 0: it takes the first \<open>t\<close> cards of each hand, a 0 for each card that a hand
  lacks, and appends them all to one hand.
\<close>

lemma trick_transfer:
  assumes ok: "rand_ok g" and wf: "wf_player p1" "wf_player p2"
    and size: "length (hand_cards p1) + length (hand_cards p2) + 3 < qlen"
    and nz: "0 \<notin> set (hand_cards p1)"
    and alive: "Alive p1" "Alive p2"
    and tr: "trick g p1 p2 r = Inr (a, b, r')"
    and nw: "\<not> wrapped p1 a" "\<not> wrapped p2 b"
  shows "\<exists>t W. 0 < t \<and> length W = 2 * t
     \<and> mset W = mset (take t (hand_cards p1)) + mset (take t (hand_cards p2))
                + replicate_mset ((t - length (hand_cards p1)) + (t - length (hand_cards p2))) 0
     \<and> (hand_cards a = drop t (hand_cards p1) @ W \<and> hand_cards b = drop t (hand_cards p2)
        \<or> hand_cards a = drop t (hand_cards p1) \<and> hand_cards b = drop t (hand_cards p2) @ W)
     \<and> wf_player a \<and> wf_player b
     \<and> (Alive a \<and> Alive b \<longrightarrow> t \<le> length (hand_cards p1) \<and> t \<le> length (hand_cards p2))"
proof -
  let ?h1 = "hand_cards p1" and ?h2 = "hand_cards p2"
  from trick_draws [OF ok tr] show ?thesis
  proof (elim exE conjE)
  fix t W
  assume t: "0 < t" "2 * t < qlen"
    and W: "mset W = mset (fst (draw_n t p1)) + mset (fst (draw_n t p2))" "length W = 2 * t"
    and ex: "last (fst (draw_n t p1)) = last (fst (draw_n t p2)) \<longrightarrow> \<not> Alive (snd (draw_n t p1))"
    and res: "if last (fst (draw_n t p2)) < last (fst (draw_n t p1))
              then Accept (snd (draw_n t p1)) W = Inr a \<and> b = snd (draw_n t p2)
              else a = snd (draw_n t p1) \<and> Accept (snd (draw_n t p2)) W = Inr b"
    and one: "fst (DrawCard p1) \<noteq> fst (DrawCard p2) \<longrightarrow> t = 1"
    and depth: "1 < t \<longrightarrow> Alive (snd (draw_n (t - 2) p1))
              \<and> last (fst (draw_n (t - 2) p1)) = last (fst (draw_n (t - 2) p2))"
  let ?m1 = "snd (draw_n t p1)" and ?m2 = "snd (draw_n t p2)"
  let ?d1 = "last (fst (draw_n t p1))" and ?d2 = "last (fst (draw_n t p2))"
  have ra: "rIdx a = rIdx ?m1" and rb: "rIdx b = rIdx ?m2"
    using res rIdx_Accept by (auto split: if_splits)
  note H1 = hand_draws [OF wf(1) t(2) nw(1) ra]
  note H2 = hand_draws [OF wf(2) t(2) nw(2) rb]
  have D1: "fst (draw_n t p1) = take t ?h1 @ replicate (t - length ?h1) 0"
    and D2: "fst (draw_n t p2) = take t ?h2 @ replicate (t - length ?h2) 0"
    using H1 H2 by simp_all
  have ms: "mset W = mset (take t ?h1) + mset (take t ?h2)
              + replicate_mset ((t - length ?h1) + (t - length ?h2)) 0"
    using W(1) D1 D2 by (simp add: replicate_mset_add)
  have d1: "?d1 = (if t - 1 < length ?h1 then ?h1 ! (t - 1) else 0)"
    and d2: "?d2 = (if t - 1 < length ?h2 then ?h2 ! (t - 1) else 0)"
    using last_draw_n [OF t(1) le_refl, of p1] last_draw_n [OF t(1) le_refl, of p2]
      padded_nth [of "t - 1" t ?h1] padded_nth [of "t - 1" t ?h2] t(1) D1 D2 by simp_all
  have i: "t - 2 < length ?h1" if "1 < t"
  proof (cases "wIdx p1 = qlen")
    case True
    then have "t \<le> length ?h1"
      using H1 by blast
    then show ?thesis
      using that by linarith
  next
    case False
    then have w: "wIdx p1 < qlen"
      using wf(1) by (simp add: wf_player_def)
    from draw_n_queue [OF wf(1) w, of "t - 2"]
    have "hand_cards (snd (draw_n (t - 2) p1)) = drop (t - 2) ?h1"
      "wf_player (snd (draw_n (t - 2) p1))"
      by simp_all
    moreover have "Alive (snd (draw_n (t - 2) p1))"
      using depth that by simp
    ultimately show ?thesis
      using Alive_hand_cards by fastforce
  qed
  have ii: "t \<le> length ?h2 + 2"
  proof (rule ccontr)
    assume "\<not> t \<le> length ?h2 + 2"
    then have big: "length ?h2 + 2 < t"
      by simp
    define j where "j = t - 3"
    have tj: "t = j + 3" and t2: "t - 2 = Suc j" and t1: "1 < t"
      using big by (simp_all add: j_def)
    have jt: "j < t" and j2: "\<not> j < length ?h2"
      using big tj by simp_all
    have j1: "j < length ?h1"
      using i [OF t1] t2 by simp
    have m: "0 < Suc j" "Suc j \<le> t"
      using tj by simp_all
    have "last (fst (draw_n (Suc j) p1)) = last (fst (draw_n (Suc j) p2))"
      using depth t1 t2 by simp
    then have e: "fst (draw_n t p1) ! j = fst (draw_n t p2) ! j"
      using last_draw_n [OF m, of p1] last_draw_n [OF m, of p2] by simp
    have "fst (draw_n t p1) ! j = ?h1 ! j"
      using padded_nth [OF jt, of ?h1] j1 by (simp only: D1 if_True)
    moreover have "?h1 ! j \<in> set ?h1"
      using j1 by simp
    moreover have "fst (draw_n t p2) ! j = 0"
      using padded_nth [OF jt, of ?h2] j2 by (simp only: D2 if_False)
    ultimately show False
      using e nz by metis
  qed
  have n1: "0 < length ?h1" and n2: "0 < length ?h2"
    using alive Alive_hand_cards wf by auto
  have i': "t \<le> length ?h1 + 1"
    using i n1 by (cases "1 < t") auto
  show ?thesis
  proof (cases "?d2 < ?d1")
    case True
    then have acc: "Accept ?m1 W = Inr a" and b: "b = ?m2"
      using res by simp_all
    from hand_loses [OF wf(2) t(2)] nw(2) b
    have L: "hand_cards b = drop t ?h2" "wf_player b"
      by simp_all
    have "?d1 \<noteq> 0"
      using True by (metis word_not_simps(1))
    then have le1: "t \<le> length ?h1"
      using d1 t(1) by (auto split: if_splits)
    have "length ?h1 + t < qlen"
      using ii size by simp
    from hand_wins [OF wf(1) t W(2) acc nw(1) this]
    have A: "hand_cards a = drop t ?h1 @ W" "wf_player a"
      by simp_all
    have "t \<le> length ?h2" if "Alive b"
      using that L Alive_hand_cards [OF L(2)] by auto
    then show ?thesis
      using t(1) W(2) ms A L le1 by (intro exI [of _ t] exI [of _ W]) simp
  next
    case False
    then have a: "a = ?m1" and acc: "Accept ?m2 W = Inr b"
      using res by simp_all
    from hand_loses [OF wf(1) t(2)] nw(1) a
    have L: "hand_cards a = drop t ?h1" "wf_player a"
      by simp_all
    have "length ?h2 + t < qlen"
      using i' size by simp
    from hand_wins [OF wf(2) t W(2) acc nw(2) this]
    have A: "hand_cards b = drop t ?h2 @ W" "wf_player b"
      by simp_all
    have "t \<le> length ?h1 \<and> t \<le> length ?h2" if al: "Alive a"
    proof -
      have le1: "t < length ?h1"
        using al L Alive_hand_cards [OF L(2)] by auto
      have "?d1 \<noteq> ?d2"
        using ex al a by auto
      then have "?d1 < ?d2"
        using False by simp
      then have "?d2 \<noteq> 0"
        by (metis word_not_simps(1))
      then have "t \<le> length ?h2"
        using d2 t(1) by (auto split: if_splits)
      then show ?thesis
        using le1 by simp
    qed
    then show ?thesis
      using t(1) W(2) ms A L by (intro exI [of _ t] exI [of _ W]) simp
  qed
  qed
qed

lemma mset_take_drop: "mset (take n xs) + mset (drop n xs) = mset xs"
  by (metis append_take_drop_id mset_append)

lemma tricks_stop:
  "\<not> (Alive p1 \<and> Alive p2) \<Longrightarrow> tricks n g p1 p2 r = Inr (p1, p2, r)"
  by (cases n) auto

section \<open>Conservation of the cards\<close>

text \<open>The sum of the two hands after a trick: the cards before it and the 0s drawn.\<close>

lemma transfer_sum:
  assumes "hand_cards a = drop t h1 @ W \<and> hand_cards b = drop t h2
           \<or> hand_cards a = drop t h1 \<and> hand_cards b = drop t h2 @ W"
    and "mset W = mset (take t h1) + mset (take t h2) + Z"
  shows "mset (hand_cards a) + mset (hand_cards b) = mset h1 + mset h2 + Z"
proof -
  have "mset (hand_cards a) + mset (hand_cards b)
          = (mset (take t h1) + mset (drop t h1)) + (mset (take t h2) + mset (drop t h2)) + Z"
    using assms by auto
  then show ?thesis
    by (simp only: mset_take_drop)
qed

lemma trick_conserved:
  assumes ok: "rand_ok g" and inv: "conserved D p1 p2" and size: "size D + 3 < qlen"
    and nz: "0 \<notin># D"
    and alive: "Alive p1" "Alive p2"
    and tr: "trick g p1 p2 r = Inr (a, b, r')"
    and nw: "\<not> wrapped p1 a" "\<not> wrapped p2 b"
    and after: "Alive a" "Alive b"
  shows "conserved D a b"
proof -
  have wf: "wf_player p1" "wf_player p2"
    and D: "mset (hand_cards p1) + mset (hand_cards p2) = D"
    using inv by (simp_all add: conserved_def)
  have lens: "length (hand_cards p1) + length (hand_cards p2) + 3 < qlen"
    using D size by (metis size_mset size_union)
  have nz1: "0 \<notin> set (hand_cards p1)"
    using nz D by (metis set_mset_mset union_iff)
  from trick_transfer [OF ok wf lens nz1 alive tr nw] after obtain t W where
    T: "mset W = mset (take t (hand_cards p1)) + mset (take t (hand_cards p2))
                + replicate_mset ((t - length (hand_cards p1)) + (t - length (hand_cards p2))) 0"
      "hand_cards a = drop t (hand_cards p1) @ W \<and> hand_cards b = drop t (hand_cards p2)
        \<or> hand_cards a = drop t (hand_cards p1) \<and> hand_cards b = drop t (hand_cards p2) @ W"
      "wf_player a" "wf_player b"
      "t \<le> length (hand_cards p1)" "t \<le> length (hand_cards p2)"
    by blast
  from transfer_sum [OF T(2,1)] T(5,6) D
  have "mset (hand_cards a) + mset (hand_cards b) = D"
    by simp
  then show ?thesis
    using T(3,4) by (simp add: conserved_def)
qed

lemma tricks_conserved:
  "rand_ok g \<Longrightarrow> conserved D p1 p2 \<Longrightarrow> size D + 3 < qlen \<Longrightarrow> 0 \<notin># D \<Longrightarrow>
     steady n g p1 p2 r \<Longrightarrow> tricks n g p1 p2 r = Inr (a, b, r') \<Longrightarrow>
     Alive a \<Longrightarrow> Alive b \<Longrightarrow> conserved D a b"
proof (induction n arbitrary: p1 p2 r)
  case 0
  then show ?case by simp
next
  case (Suc n)
  show ?case
  proof (cases "Alive p1 \<and> Alive p2")
    case False
    then show ?thesis
      using Suc.prems(2,6) by auto
  next
    case True
    from Suc.prems(6) True obtain m1 m2 r1 where
      tr: "trick g p1 p2 r = Inr (m1, m2, r1)" and rest: "tricks n g m1 m2 r1 = Inr (a, b, r')"
      by (auto split: sum.splits)
    from Suc.prems(5) True tr have nw: "\<not> wrapped p1 m1" "\<not> wrapped p2 m2"
      and st: "steady n g m1 m2 r1"
      by simp_all
    have alive: "Alive m1 \<and> Alive m2"
    proof (rule ccontr)
      assume "\<not> (Alive m1 \<and> Alive m2)"
      from tricks_stop [OF this, of n g r1] rest have "a = m1" "b = m2"
        by simp_all
      then show False
        using \<open>\<not> (Alive m1 \<and> Alive m2)\<close> Suc.prems(7,8) by simp
    qed
    have "conserved D m1 m2"
      using trick_conserved [OF Suc.prems(1,2,3,4) _ _ tr nw] True alive by simp
    from Suc.IH [OF Suc.prems(1) this Suc.prems(3,4) st rest Suc.prems(7,8)] show ?thesis .
  qed
qed

lemma makeDeck_values: "\<forall>c\<in>set makeDeck. 2 \<le> c \<and> c \<le> 14"
proof -
  have "list_all (\<lambda>c. 2 \<le> c \<and> c \<le> 14) makeDeck"
    by code_simp
  then show ?thesis
    by (simp add: list_all_iff)
qed

lemma length_makeDeck: "length makeDeck = 52"
  by code_simp

lemma Reset_conserved:
  assumes "length (cards q1) = qlen" "length (cards q2) = qlen"
    "length h1 \<le> qlen" "length h2 \<le> qlen"
  shows "conserved (mset h1 + mset h2) (Reset q1 h1) (Reset q2 h2)"
  using Reset_hand [OF assms(1), of h1] Reset_hand [OF assms(2), of h2] assms(3,4)
  by (simp add: conserved_def)

text \<open>
  Claim C6, as stated, fails at the trick that ends a game in a war. In the deal below
  hand 2 wins 24 tricks; the 25th ties on the 8s, hand 1 lays its last card face down and
  then draws the 0 sentinel, and hand 2 collects six entries for five cards: it holds 53
  entries, one of them 0.
\<close>

theorem cards_conserved_counterexample:
  "length short_hand1 = 26 \<and> length short_hand2 = 26
   \<and> mset short_hand1 + mset short_hand2 = mset makeDeck
   \<and> (case tricks 25 gen_last (Reset new_player short_hand1) (Reset new_player short_hand2) () of
         Inl e \<Rightarrow> False
       | Inr (a, b, r') \<Rightarrow>
           length (hand_cards a) + length (hand_cards b) = 53 \<and> 0 \<in> set (hand_cards b))"
  by code_simp

text \<open>
  Claim C6, amended: in every game started from two 26-card halves of the standard deck,
  as long as no hand has been caught by the write index resting at \<open>qlen\<close>. Before
  every trick, that is whenever both hands are alive at the head of the loop, the two
  hands together hold exactly the 52 cards of the deck, so every card held lies in
  [2, 14]. Every trick that returns takes the first \<open>t\<close> cards of each hand, with a 0
  for each card that a hand lacks, and appends all \<open>2 * t\<close> of them to exactly one hand,
  the other hand keeping only the cards it has not drawn: no card is created or
  destroyed, and after the trick the hands hold the 52 cards and the 0s drawn. After a
  trick that leaves both hands alive no 0 was drawn and the hands again hold exactly the
  52 cards.
\<close>

theorem cards_conserved:
  assumes "rand_ok g" "length (cards q1) = qlen" "length (cards q2) = qlen"
    and "length h1 = 26" "length h2 = 26" "mset h1 + mset h2 = mset makeDeck"
    and "steady n g (Reset q1 h1) (Reset q2 h2) r"
    and "tricks n g (Reset q1 h1) (Reset q2 h2) r = Inr (p1, p2, r1)"
    and "Alive p1" "Alive p2"
  shows "mset (hand_cards p1) + mset (hand_cards p2) = mset makeDeck
       \<and> length (hand_cards p1) + length (hand_cards p2) = 52
       \<and> (\<forall>c\<in>set (hand_cards p1) \<union> set (hand_cards p2). 2 \<le> c \<and> c \<le> 14)
       \<and> (\<forall>a b r'. trick g p1 p2 r1 = Inr (a, b, r') \<and> \<not> wrapped p1 a \<and> \<not> wrapped p2 b \<longrightarrow>
            (\<exists>t W. 0 < t \<and> length W = 2 * t
               \<and> mset W = mset (take t (hand_cards p1)) + mset (take t (hand_cards p2))
                   + replicate_mset ((t - length (hand_cards p1)) + (t - length (hand_cards p2))) 0
               \<and> (hand_cards a = drop t (hand_cards p1) @ W \<and> hand_cards b = drop t (hand_cards p2)
                  \<or> hand_cards a = drop t (hand_cards p1) \<and> hand_cards b = drop t (hand_cards p2) @ W)
               \<and> mset (hand_cards a) + mset (hand_cards b)
                   = mset makeDeck
                     + replicate_mset ((t - length (hand_cards p1)) + (t - length (hand_cards p2))) 0
               \<and> (Alive a \<and> Alive b \<longrightarrow>
                     t \<le> length (hand_cards p1) \<and> t \<le> length (hand_cards p2)
                     \<and> mset (hand_cards a) + mset (hand_cards b) = mset makeDeck)))"
proof -
  have start: "conserved (mset makeDeck) (Reset q1 h1) (Reset q2 h2)"
    using Reset_conserved [OF assms(2,3), of h1 h2] assms(4,5,6) by (simp add: qlen_def)
  have size: "size (mset makeDeck) + 3 < qlen"
    by (simp add: length_makeDeck qlen_def)
  have nz: "0 \<notin># mset makeDeck"
    using makeDeck_values by auto
  from tricks_conserved [OF assms(1) start size nz assms(7,8,9,10)]
  have inv: "conserved (mset makeDeck) p1 p2" .
  then have ms: "mset (hand_cards p1) + mset (hand_cards p2) = mset makeDeck"
    and wf: "wf_player p1" "wf_player p2"
    by (simp_all add: conserved_def)
  from ms have "size (mset (hand_cards p1) + mset (hand_cards p2)) = 52"
    by (simp add: length_makeDeck)
  then have len: "length (hand_cards p1) + length (hand_cards p2) = 52"
    by simp
  have "set (hand_cards p1) \<union> set (hand_cards p2) = set makeDeck"
    using ms by (metis set_mset_mset set_mset_union)
  then have vals: "\<forall>c\<in>set (hand_cards p1) \<union> set (hand_cards p2). 2 \<le> c \<and> c \<le> 14"
    using makeDeck_values by simp
  have nz1: "0 \<notin> set (hand_cards p1)"
  proof
    assume "0 \<in> set (hand_cards p1)"
    then have "(2::u8) \<le> 0"
      using vals by blast
    then show False
      by simp
  qed
  have lens: "length (hand_cards p1) + length (hand_cards p2) + 3 < qlen"
    using len by (simp add: qlen_def)
  have step: "\<exists>t W. 0 < t \<and> length W = 2 * t
               \<and> mset W = mset (take t (hand_cards p1)) + mset (take t (hand_cards p2))
                   + replicate_mset ((t - length (hand_cards p1)) + (t - length (hand_cards p2))) 0
               \<and> (hand_cards a = drop t (hand_cards p1) @ W \<and> hand_cards b = drop t (hand_cards p2)
                  \<or> hand_cards a = drop t (hand_cards p1) \<and> hand_cards b = drop t (hand_cards p2) @ W)
               \<and> mset (hand_cards a) + mset (hand_cards b)
                   = mset makeDeck
                     + replicate_mset ((t - length (hand_cards p1)) + (t - length (hand_cards p2))) 0
               \<and> (Alive a \<and> Alive b \<longrightarrow>
                     t \<le> length (hand_cards p1) \<and> t \<le> length (hand_cards p2)
                     \<and> mset (hand_cards a) + mset (hand_cards b) = mset makeDeck)"
    if tr: "trick g p1 p2 r1 = Inr (a, b, r')" and nw: "\<not> wrapped p1 a" "\<not> wrapped p2 b"
    for a b r'
  proof -
    from trick_transfer [OF assms(1) wf lens nz1 assms(9,10) tr nw] obtain t W where
      T: "0 < t" "length W = 2 * t"
        "mset W = mset (take t (hand_cards p1)) + mset (take t (hand_cards p2))
                + replicate_mset ((t - length (hand_cards p1)) + (t - length (hand_cards p2))) 0"
        "hand_cards a = drop t (hand_cards p1) @ W \<and> hand_cards b = drop t (hand_cards p2)
          \<or> hand_cards a = drop t (hand_cards p1) \<and> hand_cards b = drop t (hand_cards p2) @ W"
        "Alive a \<and> Alive b \<longrightarrow> t \<le> length (hand_cards p1) \<and> t \<le> length (hand_cards p2)"
      by blast
    from transfer_sum [OF T(4,3)] ms
    have sum: "mset (hand_cards a) + mset (hand_cards b)
                 = mset makeDeck
                   + replicate_mset ((t - length (hand_cards p1)) + (t - length (hand_cards p2))) 0"
      by simp
    have "mset (hand_cards a) + mset (hand_cards b) = mset makeDeck" if "Alive a \<and> Alive b"
      using sum T(5) that by simp
    then show ?thesis
      using T sum by (intro exI [of _ t] exI [of _ W]) blast
  qed
  show ?thesis
    using ms len vals step by blast
qed

theorem cards_conserved_witness:
  "(\<exists>p1 p2 r1 a b r' t. tricks 24 gen_last (Reset new_player short_hand1)
                            (Reset new_player short_hand2) () = Inr (p1, p2, r1)
       \<and> mset (hand_cards p1) + mset (hand_cards p2) = mset makeDeck
       \<and> trick gen_last p1 p2 r1 = Inr (a, b, r') \<and> \<not> Alive a
       \<and> mset (hand_cards a) + mset (hand_cards b)
           = mset makeDeck
             + replicate_mset ((t - length (hand_cards p1)) + (t - length (hand_cards p2))) 0)
   \<and> (\<exists>p1 p2 r1 a b r'. tricks 3 gen_last (Reset new_player short_hand1)
                            (Reset new_player short_hand2) () = Inr (p1, p2, r1)
       \<and> length (hand_cards p1) + length (hand_cards p2) = 52
       \<and> trick gen_last p1 p2 r1 = Inr (a, b, r') \<and> Alive a \<and> Alive b
       \<and> mset (hand_cards a) + mset (hand_cards b) = mset makeDeck)"
proof -
  let ?P1 = "Reset new_player short_hand1" and ?P2 = "Reset new_player short_hand2"
  have l: "length (cards new_player) = qlen"
    by (simp add: new_player_def)
  have h: "length short_hand1 = 26" "length short_hand2 = 26"
    "mset short_hand1 + mset short_hand2 = mset makeDeck"
    by code_simp+
  have last: "\<exists>p1 p2 r1 a b r' t. tricks 24 gen_last ?P1 ?P2 () = Inr (p1, p2, r1)
       \<and> mset (hand_cards p1) + mset (hand_cards p2) = mset makeDeck
       \<and> trick gen_last p1 p2 r1 = Inr (a, b, r') \<and> \<not> Alive a
       \<and> mset (hand_cards a) + mset (hand_cards b)
           = mset makeDeck
             + replicate_mset ((t - length (hand_cards p1)) + (t - length (hand_cards p2))) 0"
  proof -
    have "case tricks 24 gen_last ?P1 ?P2 () of
            Inl e \<Rightarrow> False
          | Inr (p1, p2, r1) \<Rightarrow>
              Alive p1 \<and> Alive p2 \<and>
              (case trick gen_last p1 p2 r1 of
                 Inl e \<Rightarrow> False
               | Inr (a, b, r') \<Rightarrow> \<not> wrapped p1 a \<and> \<not> wrapped p2 b \<and> \<not> Alive a)"
      by code_simp
    then obtain p1 p2 r1 a b r' where
      run: "tricks 24 gen_last ?P1 ?P2 () = Inr (p1, p2, r1)" and al: "Alive p1" "Alive p2"
      and tr: "trick gen_last p1 p2 r1 = Inr (a, b, r')"
      and nw: "\<not> wrapped p1 a" "\<not> wrapped p2 b" and dead: "\<not> Alive a"
      by (auto split: sum.splits)
    have st: "steady 24 gen_last ?P1 ?P2 ()"
      by code_simp
    note R = cards_conserved [OF rand_ok_gen_last l l h st run al]
    from R tr nw obtain t where
      "mset (hand_cards a) + mset (hand_cards b)
           = mset makeDeck
             + replicate_mset ((t - length (hand_cards p1)) + (t - length (hand_cards p2))) 0"
      by blast
    then show ?thesis
      using run tr dead R by blast
  qed
  have early: "\<exists>p1 p2 r1 a b r'. tricks 3 gen_last ?P1 ?P2 () = Inr (p1, p2, r1)
       \<and> length (hand_cards p1) + length (hand_cards p2) = 52
       \<and> trick gen_last p1 p2 r1 = Inr (a, b, r') \<and> Alive a \<and> Alive b
       \<and> mset (hand_cards a) + mset (hand_cards b) = mset makeDeck"
  proof -
    have "case tricks 3 gen_last ?P1 ?P2 () of
            Inl e \<Rightarrow> False
          | Inr (p1, p2, r1) \<Rightarrow>
              Alive p1 \<and> Alive p2 \<and>
              (case trick gen_last p1 p2 r1 of
                 Inl e \<Rightarrow> False
               | Inr (a, b, r') \<Rightarrow> \<not> wrapped p1 a \<and> \<not> wrapped p2 b \<and> Alive a \<and> Alive b)"
      by code_simp
    then obtain p1 p2 r1 a b r' where
      run: "tricks 3 gen_last ?P1 ?P2 () = Inr (p1, p2, r1)" and al: "Alive p1" "Alive p2"
      and tr: "trick gen_last p1 p2 r1 = Inr (a, b, r')"
      and nw: "\<not> wrapped p1 a" "\<not> wrapped p2 b" and after: "Alive a" "Alive b"
      by (auto split: sum.splits)
    have st: "steady 3 gen_last ?P1 ?P2 ()"
      by code_simp
    note R = cards_conserved [OF rand_ok_gen_last l l h st run al]
    from R tr nw after have "mset (hand_cards a) + mset (hand_cards b) = mset makeDeck"
      by blast
    then show ?thesis
      using run tr after R by blast
  qed
  show ?thesis
    using last early by (rule conjI)
qed

section \<open>Games without ties\<close>

lemma war_unequal: "c1 \<noteq> c2 \<Longrightarrow> war p1 p2 c1 c2 wins = Inr (p1, p2, c1, c2, wins)"
  by (subst war.simps) simp

text \<open>A trick whose first cards differ does not panic.\<close>

lemma trick_unequal:
  assumes "rand_ok g" "fst (DrawCard p1) \<noteq> fst (DrawCard p2)"
    "wIdx p1 \<le> qlen" "wIdx p2 \<le> qlen"
  shows "\<exists>a b r'. trick g p1 p2 r = Inr (a, b, r')"
proof -
  let ?c1 = "fst (DrawCard p1)" and ?c2 = "fst (DrawCard p2)"
  let ?p1a = "snd (DrawCard p1)" and ?p2a = "snd (DrawCard p2)"
  have war: "war ?p1a ?p2a ?c1 ?c2 [?c1, ?c2] = Inr (?p1a, ?p2a, ?c1, ?c2, [?c1, ?c2])"
    using assms(2) by (rule war_unequal)
  show ?thesis
  proof (cases "?c2 < ?c1")
    case True
    from shuffle_ok [OF assms(1), of "[?c1, ?c2]" r] obtain ws r1 where
      sh: "shuffle g [?c1, ?c2] r = Inr (ws, r1)"
      by blast
    obtain a where acc: "Accept ?p1a ws = Inr a"
      using Accept_ok [of ?p1a ws] assms(3) by (auto simp: wIdx_DrawCard)
    have "trick g p1 p2 r = Inr (a, ?p2a, r1)"
      using war True sh acc by (simp add: trick_def split_beta)
    then show ?thesis
      by blast
  next
    case False
    obtain b where acc: "Accept ?p2a (mySort [?c1, ?c2]) = Inr b"
      using Accept_ok [of ?p2a "mySort [?c1, ?c2]"] assms(4) by (auto simp: wIdx_DrawCard)
    have "trick g p1 p2 r = Inr (?p1a, b, r)"
      using war False acc by (simp add: trick_def split_beta)
    then show ?thesis
      by blast
  qed
qed

lemma draw_n_1: "draw_n 1 rg = ([fst (DrawCard rg)], snd (DrawCard rg))"
  by (simp add: draw_n_Suc del: draw_n.simps(2))

text \<open>
  A trick whose first cards differ, with no hand caught: the two cards go to the hand with
  the greater one, which gains one card while the other hand loses one.
\<close>

lemma trick_unequal_step:
  assumes ok: "rand_ok g" and inv: "conserved D p1 p2" and size: "size D < qlen"
    and alive: "Alive p1" "Alive p2"
    and ne: "fst (DrawCard p1) \<noteq> fst (DrawCard p2)"
    and tr: "trick g p1 p2 r = Inr (a, b, r')"
    and nw: "\<not> wrapped p1 a" "\<not> wrapped p2 b"
  shows "conserved D a b
         \<and> (if fst (DrawCard p2) < fst (DrawCard p1)
            then length (hand_cards a) = length (hand_cards p1) + 1
                 \<and> length (hand_cards b) + 1 = length (hand_cards p2)
            else length (hand_cards a) + 1 = length (hand_cards p1)
                 \<and> length (hand_cards b) = length (hand_cards p2) + 1)"
proof -
  let ?h1 = "hand_cards p1" and ?h2 = "hand_cards p2"
  have wf: "wf_player p1" "wf_player p2"
    and D: "mset ?h1 + mset ?h2 = D"
    using inv by (simp_all add: conserved_def)
  have lens: "length ?h1 + length ?h2 < qlen"
    using D size by (metis size_mset size_union)
  have n1: "0 < length ?h1" and n2: "0 < length ?h2"
    using alive Alive_hand_cards wf by auto
  from trick_draws [OF ok tr] show ?thesis
  proof (elim exE conjE)
    fix t W
    assume t: "0 < t" "2 * t < qlen"
      and W: "mset W = mset (fst (draw_n t p1)) + mset (fst (draw_n t p2))" "length W = 2 * t"
      and res: "if last (fst (draw_n t p2)) < last (fst (draw_n t p1))
                then Accept (snd (draw_n t p1)) W = Inr a \<and> b = snd (draw_n t p2)
                else a = snd (draw_n t p1) \<and> Accept (snd (draw_n t p2)) W = Inr b"
      and one: "fst (DrawCard p1) \<noteq> fst (DrawCard p2) \<longrightarrow> t = 1"
    have t1: "t = 1"
      using one ne by simp
    let ?m1 = "snd (draw_n 1 p1)" and ?m2 = "snd (draw_n 1 p2)"
    have two: "2 * (1::nat) < qlen" and pos: "0 < (1::nat)"
      by (simp_all add: qlen_def)
    have lW: "length W = 2 * 1"
      using W(2) t1 by simp
    have res1: "if fst (DrawCard p2) < fst (DrawCard p1)
                then Accept ?m1 W = Inr a \<and> b = ?m2
                else a = ?m1 \<and> Accept ?m2 W = Inr b"
      using res unfolding t1 draw_n_1 by simp
    have ra: "rIdx a = rIdx ?m1" and rb: "rIdx b = rIdx ?m2"
      using res1 rIdx_Accept by (auto split: if_splits)
    have D1: "fst (draw_n 1 p1) = take 1 ?h1" and D2: "fst (draw_n 1 p2) = take 1 ?h2"
      using hand_draws [OF wf(1) two nw(1) ra] hand_draws [OF wf(2) two nw(2) rb] n1 n2
      by simp_all
    have ms: "mset W = mset (take 1 ?h1) + mset (take 1 ?h2) + {#}"
      using W(1) t1 D1 D2 by simp
    show ?thesis
    proof (cases "fst (DrawCard p2) < fst (DrawCard p1)")
      case True
      then have acc: "Accept ?m1 W = Inr a" and b: "b = ?m2"
        using res1 by simp_all
      from hand_loses [OF wf(2) two] nw(2) b
      have L: "hand_cards b = drop 1 ?h2" "wf_player b"
        by simp_all
      have "length ?h1 + 1 < qlen"
        using lens n2 by linarith
      from hand_wins [OF wf(1) pos two lW acc nw(1) this]
      have A: "hand_cards a = drop 1 ?h1 @ W" "wf_player a"
        by simp_all
      have "mset (hand_cards a) + mset (hand_cards b) = mset ?h1 + mset ?h2 + {#}"
        using A(1) L(1) by (intro transfer_sum [OF _ ms]) simp
      then have "conserved D a b"
        using A(2) L(2) D by (simp add: conserved_def)
      then show ?thesis
        using True A(1) L(1) lW n1 n2 by simp
    next
      case False
      then have a: "a = ?m1" and acc: "Accept ?m2 W = Inr b"
        using res1 by simp_all
      from hand_loses [OF wf(1) two] nw(1) a
      have L: "hand_cards a = drop 1 ?h1" "wf_player a"
        by simp_all
      have "length ?h2 + 1 < qlen"
        using lens n1 by linarith
      from hand_wins [OF wf(2) pos two lW acc nw(2) this]
      have A: "hand_cards b = drop 1 ?h2 @ W" "wf_player b"
        by simp_all
      have "mset (hand_cards a) + mset (hand_cards b) = mset ?h1 + mset ?h2 + {#}"
        using A(1) L(1) by (intro transfer_sum [OF _ ms]) simp
      then have "conserved D a b"
        using A(2) L(2) D by (simp add: conserved_def)
      then show ?thesis
        using False A(1) L(1) lW n1 n2 by simp
    qed
  qed
qed

lemma trick_unequal_rIdx:
  assumes "fst (DrawCard p1) \<noteq> fst (DrawCard p2)" "trick g p1 p2 r = Inr (a, b, r')"
  shows "rIdx a = rIdx (snd (DrawCard p1)) \<and> rIdx b = rIdx (snd (DrawCard p2))"
  using assms(2) war_unequal [OF assms(1)] rIdx_Accept
  by (auto simp: trick_def split_beta split: if_splits sum.splits)

text \<open>In a game without ties the read indices count the tricks, so no hand is caught early.\<close>

lemma tie_free_steady:
  "rIdx p1 = k \<Longrightarrow> rIdx p2 = k \<Longrightarrow> k + n < qlen \<Longrightarrow> tie_free n g p1 p2 r \<Longrightarrow>
     steady n g p1 p2 r"
proof (induction n arbitrary: p1 p2 r k)
  case 0
  then show ?case by simp
next
  case (Suc n)
  show ?case
  proof (cases "Alive p1 \<and> Alive p2")
    case False
    then show ?thesis by auto
  next
    case True
    show ?thesis
    proof (cases "trick g p1 p2 r")
      case (Inl e)
      then show ?thesis using True by simp
    next
      case (Inr res)
      obtain m1 m2 r1 where res: "res = (m1, m2, r1)"
        by (cases res)
      have ne: "fst (DrawCard p1) \<noteq> fst (DrawCard p2)"
        and rest: "tie_free n g m1 m2 r1"
        using Suc.prems(4) True Inr res by simp_all
      have k: "k + 1 \<noteq> qlen"
        using Suc.prems(3) by simp
      have "rIdx (snd (DrawCard p1)) = k + 1" "rIdx (snd (DrawCard p2)) = k + 1"
        using True Suc.prems(1,2) k by (simp_all add: DrawCard_def Alive_def)
      then have r: "rIdx m1 = k + 1" "rIdx m2 = k + 1"
        using trick_unequal_rIdx [OF ne Inr [unfolded res]] by simp_all
      have "steady n g m1 m2 r1"
        using Suc.IH [OF r _ rest] Suc.prems(3) by simp
      then show ?thesis
        using True Inr res r Suc.prems(1,2) by (simp add: wrapped_def)
    qed
  qed
qed

lemma tie_free_run:
  "rand_ok g \<Longrightarrow> conserved D p1 p2 \<Longrightarrow> size D < qlen \<Longrightarrow> tie_free n g p1 p2 r \<Longrightarrow>
     steady n g p1 p2 r \<Longrightarrow>
     \<exists>a b r'. tricks n g p1 p2 r = Inr (a, b, r') \<and> conserved D a b
        \<and> length (hand_cards p1) \<le> length (hand_cards a) + n
        \<and> length (hand_cards p2) \<le> length (hand_cards b) + n"
proof (induction n arbitrary: p1 p2 r)
  case 0
  then show ?case by simp
next
  case (Suc n)
  show ?case
  proof (cases "Alive p1 \<and> Alive p2")
    case False
    then show ?thesis
      using Suc.prems(2) by auto
  next
    case True
    have ne: "fst (DrawCard p1) \<noteq> fst (DrawCard p2)"
      using Suc.prems(4) True by simp
    have w: "wIdx p1 \<le> qlen" "wIdx p2 \<le> qlen"
      using Suc.prems(2) by (simp_all add: conserved_def wf_player_def)
    from trick_unequal [OF Suc.prems(1) ne w, of r] obtain m1 m2 r1 where
      tr: "trick g p1 p2 r = Inr (m1, m2, r1)"
      by blast
    have tf: "tie_free n g m1 m2 r1" and st: "steady n g m1 m2 r1"
      and nw: "\<not> wrapped p1 m1" "\<not> wrapped p2 m2"
      using Suc.prems(4,5) True tr by simp_all
    from trick_unequal_step [OF Suc.prems(1,2,3) _ _ ne tr nw] True
    have step: "conserved D m1 m2" "length (hand_cards p1) \<le> length (hand_cards m1) + 1"
      "length (hand_cards p2) \<le> length (hand_cards m2) + 1"
      by (auto split: if_splits)
    from Suc.IH [OF Suc.prems(1) step(1) Suc.prems(3) tf st] obtain a b r' where
      "tricks n g m1 m2 r1 = Inr (a, b, r')" "conserved D a b"
      "length (hand_cards m1) \<le> length (hand_cards a) + n"
      "length (hand_cards m2) \<le> length (hand_cards b) + n"
      by blast
    then show ?thesis
      using True tr step(2,3) by simp
  qed
qed

text \<open>
  A hand that has lost \<open>n\<close> cards in \<open>n\<close> tricks without ties has lost every one of them.
\<close>

lemma tie_free_sweep1:
  "rand_ok g \<Longrightarrow> conserved D p1 p2 \<Longrightarrow> size D < qlen \<Longrightarrow> tie_free n g p1 p2 r \<Longrightarrow>
     steady n g p1 p2 r \<Longrightarrow> tricks n g p1 p2 r = Inr (a, b, r') \<Longrightarrow>
     length (hand_cards p1) = length (hand_cards a) + n \<Longrightarrow>
     \<forall>k<n. \<exists>x y s. tricks k g p1 p2 r = Inr (x, y, s)
        \<and> length (hand_cards x) + k = length (hand_cards p1)
        \<and> length (hand_cards y) = length (hand_cards p2) + k
        \<and> fst (DrawCard x) < fst (DrawCard y)"
proof (induction n arbitrary: p1 p2 r)
  case 0
  then show ?case by simp
next
  case (Suc n)
  have al: "Alive p1 \<and> Alive p2"
  proof (rule ccontr)
    assume "\<not> (Alive p1 \<and> Alive p2)"
    from tricks_stop [OF this, of "Suc n" g r] Suc.prems(6) have "a = p1"
      by simp
    then show False
      using Suc.prems(7) by simp
  qed
  have ne: "fst (DrawCard p1) \<noteq> fst (DrawCard p2)"
    using Suc.prems(4) al by simp
  from Suc.prems(6) al obtain m1 m2 r1 where
    tr: "trick g p1 p2 r = Inr (m1, m2, r1)" and rest: "tricks n g m1 m2 r1 = Inr (a, b, r')"
    by (auto split: sum.splits)
  have tf: "tie_free n g m1 m2 r1" and st: "steady n g m1 m2 r1"
    and nw: "\<not> wrapped p1 m1" "\<not> wrapped p2 m2"
    using Suc.prems(4,5) al tr by simp_all
  note S = trick_unequal_step [OF Suc.prems(1,2,3) conjunct1 [OF al] conjunct2 [OF al] ne tr nw]
  have inv: "conserved D m1 m2"
    using S by (rule conjunct1)
  have step: "if fst (DrawCard p2) < fst (DrawCard p1)
               then length (hand_cards m1) = length (hand_cards p1) + 1
                    \<and> length (hand_cards m2) + 1 = length (hand_cards p2)
               else length (hand_cards m1) + 1 = length (hand_cards p1)
                    \<and> length (hand_cards m2) = length (hand_cards p2) + 1"
    using S by (rule conjunct2)
  from tie_free_run [OF Suc.prems(1) inv Suc.prems(3) tf st] rest
  have le: "length (hand_cards m1) \<le> length (hand_cards a) + n"
    by auto
  have lost: "\<not> fst (DrawCard p2) < fst (DrawCard p1)"
    using step le Suc.prems(7) by (auto split: if_splits)
  then have less: "fst (DrawCard p1) < fst (DrawCard p2)"
    using ne by simp
  have l1: "length (hand_cards m1) + 1 = length (hand_cards p1)"
    and l2: "length (hand_cards m2) = length (hand_cards p2) + 1"
    using step lost by simp_all
  have "length (hand_cards m1) = length (hand_cards a) + n"
    using l1 Suc.prems(7) by simp
  from Suc.IH [OF Suc.prems(1) inv Suc.prems(3) tf st rest this]
  have IH: "\<forall>k<n. \<exists>x y s. tricks k g m1 m2 r1 = Inr (x, y, s)
        \<and> length (hand_cards x) + k = length (hand_cards m1)
        \<and> length (hand_cards y) = length (hand_cards m2) + k
        \<and> fst (DrawCard x) < fst (DrawCard y)" .
  show ?case
  proof (intro allI impI)
    fix k assume k: "k < Suc n"
    show "\<exists>x y s. tricks k g p1 p2 r = Inr (x, y, s)
        \<and> length (hand_cards x) + k = length (hand_cards p1)
        \<and> length (hand_cards y) = length (hand_cards p2) + k
        \<and> fst (DrawCard x) < fst (DrawCard y)"
    proof (cases k)
      case 0
      then show ?thesis
        using less by simp
    next
      case (Suc j)
      then have "j < n"
        using k by simp
      with IH obtain x y s where
        "tricks j g m1 m2 r1 = Inr (x, y, s)"
        "length (hand_cards x) + j = length (hand_cards m1)"
        "length (hand_cards y) = length (hand_cards m2) + j"
        "fst (DrawCard x) < fst (DrawCard y)"
        by blast
      then show ?thesis
        using Suc al tr l1 l2 by (intro exI [of _ x] exI [of _ y] exI [of _ s]) simp
    qed
  qed
qed

lemma tie_free_sweep2:
  "rand_ok g \<Longrightarrow> conserved D p1 p2 \<Longrightarrow> size D < qlen \<Longrightarrow> tie_free n g p1 p2 r \<Longrightarrow>
     steady n g p1 p2 r \<Longrightarrow> tricks n g p1 p2 r = Inr (a, b, r') \<Longrightarrow>
     length (hand_cards p2) = length (hand_cards b) + n \<Longrightarrow>
     \<forall>k<n. \<exists>x y s. tricks k g p1 p2 r = Inr (x, y, s)
        \<and> length (hand_cards x) = length (hand_cards p1) + k
        \<and> length (hand_cards y) + k = length (hand_cards p2)
        \<and> fst (DrawCard y) < fst (DrawCard x)"
proof (induction n arbitrary: p1 p2 r)
  case 0
  then show ?case by simp
next
  case (Suc n)
  have al: "Alive p1 \<and> Alive p2"
  proof (rule ccontr)
    assume "\<not> (Alive p1 \<and> Alive p2)"
    from tricks_stop [OF this, of "Suc n" g r] Suc.prems(6) have "b = p2"
      by simp
    then show False
      using Suc.prems(7) by simp
  qed
  have ne: "fst (DrawCard p1) \<noteq> fst (DrawCard p2)"
    using Suc.prems(4) al by simp
  from Suc.prems(6) al obtain m1 m2 r1 where
    tr: "trick g p1 p2 r = Inr (m1, m2, r1)" and rest: "tricks n g m1 m2 r1 = Inr (a, b, r')"
    by (auto split: sum.splits)
  have tf: "tie_free n g m1 m2 r1" and st: "steady n g m1 m2 r1"
    and nw: "\<not> wrapped p1 m1" "\<not> wrapped p2 m2"
    using Suc.prems(4,5) al tr by simp_all
  note S = trick_unequal_step [OF Suc.prems(1,2,3) conjunct1 [OF al] conjunct2 [OF al] ne tr nw]
  have inv: "conserved D m1 m2"
    using S by (rule conjunct1)
  have step: "if fst (DrawCard p2) < fst (DrawCard p1)
               then length (hand_cards m1) = length (hand_cards p1) + 1
                    \<and> length (hand_cards m2) + 1 = length (hand_cards p2)
               else length (hand_cards m1) + 1 = length (hand_cards p1)
                    \<and> length (hand_cards m2) = length (hand_cards p2) + 1"
    using S by (rule conjunct2)
  from tie_free_run [OF Suc.prems(1) inv Suc.prems(3) tf st] rest
  have le: "length (hand_cards m2) \<le> length (hand_cards b) + n"
    by auto
  have less: "fst (DrawCard p2) < fst (DrawCard p1)"
    using step le Suc.prems(7) by (auto split: if_splits)
  have l1: "length (hand_cards m1) = length (hand_cards p1) + 1"
    and l2: "length (hand_cards m2) + 1 = length (hand_cards p2)"
    using step less by simp_all
  have "length (hand_cards m2) = length (hand_cards b) + n"
    using l2 Suc.prems(7) by simp
  from Suc.IH [OF Suc.prems(1) inv Suc.prems(3) tf st rest this]
  have IH: "\<forall>k<n. \<exists>x y s. tricks k g m1 m2 r1 = Inr (x, y, s)
        \<and> length (hand_cards x) = length (hand_cards m1) + k
        \<and> length (hand_cards y) + k = length (hand_cards m2)
        \<and> fst (DrawCard y) < fst (DrawCard x)" .
  show ?case
  proof (intro allI impI)
    fix k assume k: "k < Suc n"
    show "\<exists>x y s. tricks k g p1 p2 r = Inr (x, y, s)
        \<and> length (hand_cards x) = length (hand_cards p1) + k
        \<and> length (hand_cards y) + k = length (hand_cards p2)
        \<and> fst (DrawCard y) < fst (DrawCard x)"
    proof (cases k)
      case 0
      then show ?thesis
        using less by simp
    next
      case (Suc j)
      then have "j < n"
        using k by simp
      with IH obtain x y s where
        "tricks j g m1 m2 r1 = Inr (x, y, s)"
        "length (hand_cards x) = length (hand_cards m1) + j"
        "length (hand_cards y) + j = length (hand_cards m2)"
        "fst (DrawCard y) < fst (DrawCard x)"
        by blast
      then show ?thesis
        using Suc al tr l1 l2 by (intro exI [of _ x] exI [of _ y] exI [of _ s]) simp
    qed
  qed
qed

text \<open>
  Claim C7, as stated, fails: in the deal below no two compared cards are ever equal, and
  the game takes 28 tricks; after 27 tricks both hands are still alive.
\<close>

theorem tie_free_game_counterexample:
  "length long_hand1 = 26 \<and> length long_hand2 = 26
   \<and> tie_free 28 gen_last (Reset new_player long_hand1) (Reset new_player long_hand2) ()
   \<and> playGame 27 gen_last (Reset new_player long_hand1) (Reset new_player long_hand2) () = None
   \<and> (case playGame 28 gen_last (Reset new_player long_hand1) (Reset new_player long_hand2) () of
         Some (Inr (res, rest)) \<Rightarrow> res = 1
       | _ \<Rightarrow> False)"
  by code_simp

text \<open>
  Claim C7, amended: for every pair of starting hands of 26 cards each, while no two
  compared cards are equal the tricks do not panic and the game cannot resolve in fewer
  than 26 tricks: both hands are alive after fewer than 26 tricks, and if a hand is not
  alive after 26 tricks then the other hand has won every one of them, the loser holding
  \<open>26 - k\<close> cards and the winner \<open>26 + k\<close> after \<open>k\<close> tricks. The cards of the two hands
  are the 52 cards dealt before and after every trick, for the first 63 tricks and later
  as long as no hand has been caught by the write index resting at \<open>qlen\<close>.
\<close>

theorem tie_free_game:
  assumes "rand_ok g" "length (cards q1) = qlen" "length (cards q2) = qlen"
    and "length h1 = 26" "length h2 = 26"
    and "tie_free n g (Reset q1 h1) (Reset q2 h2) r"
    and "n < qlen \<or> steady n g (Reset q1 h1) (Reset q2 h2) r"
  shows "\<exists>a b r'. tricks n g (Reset q1 h1) (Reset q2 h2) r = Inr (a, b, r')
           \<and> mset (hand_cards a) + mset (hand_cards b) = mset h1 + mset h2
           \<and> length (hand_cards a) + length (hand_cards b) = 52
           \<and> (n < 26 \<longrightarrow> Alive a \<and> Alive b)
           \<and> (n = 26 \<and> \<not> Alive a \<longrightarrow>
                (\<forall>k<26. \<exists>x y s. tricks k g (Reset q1 h1) (Reset q2 h2) r = Inr (x, y, s)
                    \<and> length (hand_cards x) = 26 - k \<and> length (hand_cards y) = 26 + k
                    \<and> fst (DrawCard x) < fst (DrawCard y)))
           \<and> (n = 26 \<and> \<not> Alive b \<longrightarrow>
                (\<forall>k<26. \<exists>x y s. tricks k g (Reset q1 h1) (Reset q2 h2) r = Inr (x, y, s)
                    \<and> length (hand_cards x) = 26 + k \<and> length (hand_cards y) = 26 - k
                    \<and> fst (DrawCard y) < fst (DrawCard x)))"
proof -
  let ?p1 = "Reset q1 h1" and ?p2 = "Reset q2 h2"
  have start: "conserved (mset h1 + mset h2) ?p1 ?p2"
    using Reset_conserved [OF assms(2,3), of h1 h2] assms(4,5) by (simp add: qlen_def)
  have size: "size (mset h1 + mset h2) < qlen"
    using assms(4,5) by (simp add: qlen_def)
  have hc: "hand_cards ?p1 = h1" "hand_cards ?p2 = h2"
    using Reset_hand [OF assms(2), of h1] Reset_hand [OF assms(3), of h2] assms(4,5)
    by (simp_all add: qlen_def)
  have r0: "rIdx ?p1 = 0" "rIdx ?p2 = 0"
    by (simp_all add: Reset_def)
  have st: "steady n g ?p1 ?p2 r"
    using assms(7) tie_free_steady [OF r0 _ assms(6)] by auto
  from tie_free_run [OF assms(1) start size assms(6) st] obtain a b r' where
    run: "tricks n g ?p1 ?p2 r = Inr (a, b, r')"
    and inv: "conserved (mset h1 + mset h2) a b"
    and len: "length h1 \<le> length (hand_cards a) + n" "length h2 \<le> length (hand_cards b) + n"
    using hc by auto
  have ms: "mset (hand_cards a) + mset (hand_cards b) = mset h1 + mset h2"
    and wf: "wf_player a" "wf_player b"
    using inv by (simp_all add: conserved_def)
  have "size (mset (hand_cards a) + mset (hand_cards b)) = 52"
    using ms assms(4,5) by simp
  then have total: "length (hand_cards a) + length (hand_cards b) = 52"
    by simp
  have early: "Alive a \<and> Alive b" if "n < 26"
  proof -
    have "hand_cards a \<noteq> [] \<and> hand_cards b \<noteq> []"
      using len that assms(4,5) by auto
    then show ?thesis
      using Alive_hand_cards wf by simp
  qed
  have sweep1: "\<forall>k<26. \<exists>x y s. tricks k g ?p1 ?p2 r = Inr (x, y, s)
                    \<and> length (hand_cards x) = 26 - k \<and> length (hand_cards y) = 26 + k
                    \<and> fst (DrawCard x) < fst (DrawCard y)"
    if n: "n = 26" and dead: "\<not> Alive a"
  proof -
    have "hand_cards a = []"
      using dead Alive_hand_cards [OF wf(1)] by simp
    then have "length (hand_cards ?p1) = length (hand_cards a) + n"
      using hc assms(4) n by simp
    from tie_free_sweep1 [OF assms(1) start size assms(6) st run this]
    have S: "\<forall>k<n. \<exists>x y s. tricks k g ?p1 ?p2 r = Inr (x, y, s)
        \<and> length (hand_cards x) + k = length (hand_cards ?p1)
        \<and> length (hand_cards y) = length (hand_cards ?p2) + k
        \<and> fst (DrawCard x) < fst (DrawCard y)" .
    show ?thesis
    proof (intro allI impI)
      fix k :: nat assume "k < 26"
      with S n obtain x y s where
        "tricks k g ?p1 ?p2 r = Inr (x, y, s)"
        "length (hand_cards x) + k = length (hand_cards ?p1)"
        "length (hand_cards y) = length (hand_cards ?p2) + k"
        "fst (DrawCard x) < fst (DrawCard y)"
        by blast
      then show "\<exists>x y s. tricks k g ?p1 ?p2 r = Inr (x, y, s)
                    \<and> length (hand_cards x) = 26 - k \<and> length (hand_cards y) = 26 + k
                    \<and> fst (DrawCard x) < fst (DrawCard y)"
        using hc assms(4,5) by (intro exI [of _ x] exI [of _ y] exI [of _ s]) auto
    qed
  qed
  have sweep2: "\<forall>k<26. \<exists>x y s. tricks k g ?p1 ?p2 r = Inr (x, y, s)
                    \<and> length (hand_cards x) = 26 + k \<and> length (hand_cards y) = 26 - k
                    \<and> fst (DrawCard y) < fst (DrawCard x)"
    if n: "n = 26" and dead: "\<not> Alive b"
  proof -
    have "hand_cards b = []"
      using dead Alive_hand_cards [OF wf(2)] by simp
    then have "length (hand_cards ?p2) = length (hand_cards b) + n"
      using hc assms(5) n by simp
    from tie_free_sweep2 [OF assms(1) start size assms(6) st run this]
    have S: "\<forall>k<n. \<exists>x y s. tricks k g ?p1 ?p2 r = Inr (x, y, s)
        \<and> length (hand_cards x) = length (hand_cards ?p1) + k
        \<and> length (hand_cards y) + k = length (hand_cards ?p2)
        \<and> fst (DrawCard y) < fst (DrawCard x)" .
    show ?thesis
    proof (intro allI impI)
      fix k :: nat assume "k < 26"
      with S n obtain x y s where
        "tricks k g ?p1 ?p2 r = Inr (x, y, s)"
        "length (hand_cards x) = length (hand_cards ?p1) + k"
        "length (hand_cards y) + k = length (hand_cards ?p2)"
        "fst (DrawCard y) < fst (DrawCard x)"
        by blast
      then show "\<exists>x y s. tricks k g ?p1 ?p2 r = Inr (x, y, s)
                    \<and> length (hand_cards x) = 26 + k \<and> length (hand_cards y) = 26 - k
                    \<and> fst (DrawCard y) < fst (DrawCard x)"
        using hc assms(4,5) by (intro exI [of _ x] exI [of _ y] exI [of _ s]) auto
    qed
  qed
  show ?thesis
    using run ms total early sweep1 sweep2
    by (intro exI [of _ a] exI [of _ b] exI [of _ r']) blast
qed

theorem tie_free_game_witness:
  "(\<exists>a b r'. tricks 5 gen_last (Reset new_player long_hand1) (Reset new_player long_hand2) ()
               = Inr (a, b, r')
      \<and> mset (hand_cards a) + mset (hand_cards b) = mset long_hand1 + mset long_hand2
      \<and> length (hand_cards a) + length (hand_cards b) = 52
      \<and> Alive a \<and> Alive b)
   \<and> (\<exists>a b r'. tricks 26 gen_last (Reset new_player short_hand1) (Reset new_player sweep_hand2) ()
               = Inr (a, b, r')
      \<and> \<not> Alive a \<and> length (hand_cards b) = 52
      \<and> (\<exists>x y s. tricks 25 gen_last (Reset new_player short_hand1) (Reset new_player sweep_hand2) ()
                    = Inr (x, y, s)
             \<and> length (hand_cards x) = 1 \<and> length (hand_cards y) = 51
             \<and> fst (DrawCard x) < fst (DrawCard y)))"
proof -
  have l: "length (cards new_player) = qlen"
    by (simp add: new_player_def)
  have h: "length long_hand1 = 26" "length long_hand2 = 26"
    by code_simp+
  have tf: "tie_free 5 gen_last (Reset new_player long_hand1) (Reset new_player long_hand2) ()"
    by code_simp
  have n: "5 < qlen \<or> steady 5 gen_last (Reset new_player long_hand1) (Reset new_player long_hand2) ()"
    by (simp add: qlen_def)
  from tie_free_game [OF rand_ok_gen_last l l h tf n]
  have first: "\<exists>a b r'. tricks 5 gen_last (Reset new_player long_hand1) (Reset new_player long_hand2) ()
               = Inr (a, b, r')
      \<and> mset (hand_cards a) + mset (hand_cards b) = mset long_hand1 + mset long_hand2
      \<and> length (hand_cards a) + length (hand_cards b) = 52
      \<and> Alive a \<and> Alive b"
    by auto
  let ?P1 = "Reset new_player short_hand1" and ?P2 = "Reset new_player sweep_hand2"
  have h': "length short_hand1 = 26" "length sweep_hand2 = 26"
    by code_simp+
  have tf': "tie_free 26 gen_last ?P1 ?P2 ()"
    by code_simp
  have n': "26 < qlen \<or> steady 26 gen_last ?P1 ?P2 ()"
    by (simp add: qlen_def)
  have dead: "case tricks 26 gen_last ?P1 ?P2 () of Inl e \<Rightarrow> False | Inr (a, b, r') \<Rightarrow> \<not> Alive a"
    by code_simp
  from tie_free_game [OF rand_ok_gen_last l l h' tf' n'] obtain a b r' where
    R: "tricks 26 gen_last ?P1 ?P2 () = Inr (a, b, r')"
      "length (hand_cards a) + length (hand_cards b) = 52"
      "(26::nat) = 26 \<and> \<not> Alive a \<longrightarrow>
         (\<forall>k<26. \<exists>x y s. tricks k gen_last ?P1 ?P2 () = Inr (x, y, s)
             \<and> length (hand_cards x) = 26 - k \<and> length (hand_cards y) = 26 + k
             \<and> fst (DrawCard x) < fst (DrawCard y))"
    by blast
  have da: "\<not> Alive a"
    using dead R(1) by simp
  have wfa: "wf_player a"
  proof -
    have "case tricks 26 gen_last ?P1 ?P2 () of Inl e \<Rightarrow> False | Inr (a, b, r') \<Rightarrow> wf_player a"
      by code_simp
    then show ?thesis
      using R(1) by simp
  qed
  have "hand_cards a = []"
    using da Alive_hand_cards [OF wfa] by simp
  then have lb: "length (hand_cards b) = 52"
    using R(2) by simp
  from R(3) da have S: "\<forall>k<26. \<exists>x y s. tricks k gen_last ?P1 ?P2 () = Inr (x, y, s)
             \<and> length (hand_cards x) = 26 - k \<and> length (hand_cards y) = 26 + k
             \<and> fst (DrawCard x) < fst (DrawCard y)"
    by blast
  have "(25::nat) < 26"
    by simp
  from S [rule_format, OF this]
  have "\<exists>x y s. tricks 25 gen_last ?P1 ?P2 () = Inr (x, y, s)
             \<and> length (hand_cards x) = 1 \<and> length (hand_cards y) = 51
             \<and> fst (DrawCard x) < fst (DrawCard y)"
    by simp
  then have second: "\<exists>a b r'. tricks 26 gen_last ?P1 ?P2 () = Inr (a, b, r')
      \<and> \<not> Alive a \<and> length (hand_cards b) = 52
      \<and> (\<exists>x y s. tricks 25 gen_last ?P1 ?P2 () = Inr (x, y, s)
             \<and> length (hand_cards x) = 1 \<and> length (hand_cards y) = 51
             \<and> fst (DrawCard x) < fst (DrawCard y))"
    using R(1) da lb by blast
  show ?thesis
    using first second by (rule conjI)
qed

end
